theory Spec2Isabelle
  imports Main "HOL-Library.AList"
begin

section \<open>Ticket inactivity bot: the timer lifecycle engine\<close>

text \<open>
  The development embeds the database-backed bot (the \<open>mongoose\<close> variant): its
  \<open>Ticket\<close> collection, the in-memory \<open>timers\<close> map, the helper functions
  \<open>clearAllTimers\<close>, \<open>startTimers\<close>, \<open>sendReminder\<close>, \<open>sendStaffAlert\<close>, and
  the handlers of \<open>clientready\<close>, \<open>messageCreate\<close>, \<open>interactionCreate\<close> and
  \<open>channelDelete\<close>.

  Conventions of the embedding.
  \<^item> Time is the value of \<open>Date.now()\<close>, an integer number of milliseconds, passed to
    every handler as \<open>now\<close>.
  \<^item> The JavaScript timer facility is an explicit list of pending timers (\<open>queue\<close>);
    \<open>setTimeout\<close> and \<open>setInterval\<close> append an entry and return its handle, a fresh
    number; \<open>clearTimeout\<close> and \<open>clearInterval\<close> delete the entry with that handle.
  \<^item> A callback is a value: it records which function of the source runs and the
    \<open>channel\<close> it closed over. The pre-delay callback of \<open>startTimers\<close> also closes
    over the document that \<open>startTimers\<close> fetched and over the \<open>timer\<close> object; the
    state keeps the document under the callback's handle, and the \<open>timer\<close> object is
    the one whose \<open>start\<close> is that handle.
  \<^item> The startup recovery, each handler and each callback runs as one step, to
    completion. The one callback that can also be run in two steps is the pre-delay
    callback of \<open>startTimers\<close>: its part up to \<open>await ticket.save()\<close> and its part
    after it, with other events in between. The other interleavings that the
    \<open>await\<close>s of the source allow are not part of the model.
  \<^item> What the bot sends (reminders, staff alerts, replies to slash commands) is appended
    to \<open>sent\<close>; the copies written to the log channel by \<open>log\<close> are left out.
\<close>

subsection \<open>Constants and configuration\<close>

type_synonym chan = string
type_synonym user = string

definition START_DELAY :: int where
  "START_DELAY = 10 * 60 * 1000"

definition REMINDER_INTERVAL :: int where
  "REMINDER_INTERVAL = 6 * 60 * 60 * 1000"

definition STAFF_ALERT_TIME :: int where
  "STAFF_ALERT_TIME = 24 * 60 * 60 * 1000"

record config =
  TICKET_CATEGORY_ID :: string
  STAFF_ROLE_ID :: string
  KING_ROLE_ID :: string
  TICKET_TOOL_BOT_ID :: user

subsection \<open>Data model\<close>

text \<open>A document of the \<open>Ticket\<close> collection; the key \<open>channelId\<close> is kept beside it.\<close>

record ticket =
  creatorId :: user
  timerStartTime :: "int option"
  reminderCount :: int

text \<open>The object stored in \<open>timers\<close> under a channel: the three handles it may hold.\<close>

record timer =
  start :: "nat option"
  repeat :: "nat option"
  staff :: "nat option"

datatype callback =
    StartCb chan
  | ReminderCb chan
  | StaffCb chan

text \<open>
  A pending timer of the runtime: \<open>every = None\<close> for a \<open>setTimeout\<close>,
  \<open>every = Some d\<close> for a \<open>setInterval\<close> of period \<open>d\<close>.
\<close>

record pending =
  hid :: nat
  due :: int
  every :: "int option"
  act :: callback

datatype reply =
    NotAuthorized
  | NoActiveTimer
  | TimerStopped
  | NoTicketData
  | TimerRestarted
  | StatusNoTicket
  | StatusInactive
  | StatusActive int int int user
  | NoCreator
  | CreatorInfo user
  | MustProvideUser
  | CreatorAssigned user

text \<open>
  \<open>Reminder c u n final\<close> is the reminder embed for creator \<open>u\<close> with number \<open>n\<close>;
  \<open>StaffAlert c d\<close> is the alert embed, rendered from the document \<open>d\<close> that
  \<open>findOne\<close> returned (the embed mentions \<open>d?.creatorId\<close>).
\<close>

datatype outmsg =
    Reminder chan user int bool
  | StaffAlert chan "ticket option"
  | Reply reply

text \<open>
  Besides the collection, the \<open>timers\<close> map, the pending timers, the next handle and
  what was sent, the state holds what the pre-delay callbacks closed over and where they
  stand: \<open>captured h\<close> is the document that \<open>startTimers\<close> had fetched when it armed
  the pre-delay timer with handle \<open>h\<close>, and \<open>awaiting\<close> lists the pre-delay callbacks
  (handle and channel) that have called \<open>ticket.save()\<close> and not yet continued.
\<close>

record state =
  tickets :: "(chan \<times> ticket) list"
  timers :: "chan \<rightharpoonup> timer"
  queue :: "pending list"
  fresh :: nat
  sent :: "outmsg list"
  captured :: "nat \<rightharpoonup> ticket"
  awaiting :: "(nat \<times> chan) list"

text \<open>A process that has just started on the persisted collection \<open>db\<close>.\<close>

definition boot :: "(chan \<times> ticket) list \<Rightarrow> state" where
  "boot db = \<lparr>tickets = db, timers = Map.empty, queue = [], fresh = 0, sent = [],
              captured = Map.empty, awaiting = []\<rparr>"

subsection \<open>The collection and the timer facility\<close>

definition findOne :: "state \<Rightarrow> chan \<Rightarrow> ticket option" where
  "findOne s c = map_of (tickets s) c"

definition save :: "chan \<Rightarrow> ticket \<Rightarrow> state \<Rightarrow> state" where
  "save c d s = s\<lparr>tickets := AList.update c d (tickets s)\<rparr>"

definition deleteOne :: "chan \<Rightarrow> state \<Rightarrow> state" where
  "deleteOne c s = s\<lparr>tickets := AList.delete c (tickets s)\<rparr>"

definition setTimeout :: "callback \<Rightarrow> int \<Rightarrow> int \<Rightarrow> state \<Rightarrow> state" where
  "setTimeout cb delay now s =
     s\<lparr>queue := queue s @ [\<lparr>hid = fresh s, due = now + delay, every = None, act = cb\<rparr>],
       fresh := Suc (fresh s)\<rparr>"

definition setInterval :: "callback \<Rightarrow> int \<Rightarrow> int \<Rightarrow> state \<Rightarrow> state" where
  "setInterval cb period now s =
     s\<lparr>queue := queue s @ [\<lparr>hid = fresh s, due = now + period, every = Some period, act = cb\<rparr>],
       fresh := Suc (fresh s)\<rparr>"

text \<open>\<open>if (h) clearTimeout(h)\<close>: nothing happens for a handle that was never set.\<close>

definition clearHandle :: "nat option \<Rightarrow> pending list \<Rightarrow> pending list" where
  "clearHandle h q = (case h of None \<Rightarrow> q | Some n \<Rightarrow> filter (\<lambda>p. hid p \<noteq> n) q)"

text \<open>The truth value JavaScript gives to a \<open>Number\<close> field that may be \<open>null\<close>.\<close>

definition truthy :: "int option \<Rightarrow> bool" where
  "truthy v = (case v of None \<Rightarrow> False | Some n \<Rightarrow> n \<noteq> 0)"

text \<open>JavaScript's \<open>%\<close> on integers: the result has the sign of the dividend.\<close>

definition jsrem :: "int \<Rightarrow> int \<Rightarrow> int" where
  "jsrem a b = (if 0 \<le> a then a mod \<bar>b\<bar> else - ((- a) mod \<bar>b\<bar>))"

subsection \<open>Helper functions of the source\<close>

definition clearAllTimers :: "chan \<Rightarrow> state \<Rightarrow> state" where
  "clearAllTimers c s =
     (case timers s c of
        None \<Rightarrow> s
      | Some t \<Rightarrow>
          s\<lparr>queue := clearHandle (staff t) (clearHandle (repeat t) (clearHandle (start t) (queue s))),
            timers := (timers s)(c := None)\<rparr>)"

definition startTimers :: "chan \<Rightarrow> int \<Rightarrow> state \<Rightarrow> state" where
  "startTimers c now s =
     (case findOne s c of
        None \<Rightarrow> s
      | Some d \<Rightarrow>
          (let s1 = clearAllTimers c s;
               h = fresh s1;
               s2 = setTimeout (StartCb c) START_DELAY now s1
           in s2\<lparr>timers := (timers s2)(c \<mapsto> \<lparr>start = Some h, repeat = None, staff = None\<rparr>),
                 captured := (captured s2)(h \<mapsto> d)\<rparr>))"

definition sendReminder :: "chan \<Rightarrow> state \<Rightarrow> state" where
  "sendReminder c s =
     (case findOne s c of
        None \<Rightarrow> s
      | Some d \<Rightarrow>
          (let n = reminderCount d + 1;
               s1 = save c (d\<lparr>reminderCount := n\<rparr>) s
           in s1\<lparr>sent := sent s1 @ [Reminder c (creatorId d) n (n = 3)]\<rparr>))"

definition sendStaffAlert :: "chan \<Rightarrow> state \<Rightarrow> state" where
  "sendStaffAlert c s = s\<lparr>sent := sent s @ [StaffAlert c (findOne s c)]\<rparr>"

text \<open>
  The callback that \<open>startTimers\<close> hands to \<open>setTimeout\<close>, under the handle \<open>h\<close>.

  Its first part, at time \<open>now\<close>, assigns \<open>timerStartTime = Date.now()\<close> and
  \<open>reminderCount = 0\<close> on the document \<open>d0\<close> it closed over (the one \<open>startTimers\<close>
  fetched when the timer was armed) and calls \<open>ticket.save()\<close>. The save writes to the
  stored document the fields whose value changed on \<open>d0\<close>: \<open>timerStartTime\<close> unless
  \<open>d0\<close> already had this value, \<open>reminderCount\<close> unless \<open>d0\<close> already had 0. The
  other fields of the stored document stay. If the stored document is gone the save
  rejects and the callback ends there (\<open>None\<close>).
\<close>

definition startSave :: "chan \<Rightarrow> nat \<Rightarrow> int \<Rightarrow> state \<Rightarrow> state option" where
  "startSave c h now s =
     (case captured s h of
        None \<Rightarrow> None
      | Some d0 \<Rightarrow>
          (case findOne s c of
             None \<Rightarrow> None
           | Some d \<Rightarrow>
               Some (save c
                 (d\<lparr>timerStartTime :=
                       (if timerStartTime d0 = Some now then timerStartTime d else Some now),
                     reminderCount :=
                       (if reminderCount d0 = 0 then reminderCount d else 0)\<rparr>) s)))"

text \<open>
  Its second part, after the \<open>await\<close>, at time \<open>now\<close>: the interval and the staff alert
  are armed, and their handles are assigned to the \<open>timer\<close> object the callback closed
  over, the one whose \<open>start\<close> is \<open>h\<close>. If \<open>timers\<close> no longer holds that object the
  assignments are not visible in \<open>timers\<close>.
\<close>

definition armTimers :: "chan \<Rightarrow> nat \<Rightarrow> int \<Rightarrow> state \<Rightarrow> state" where
  "armTimers c h now s =
     (let r = fresh s;
          s2 = setInterval (ReminderCb c) REMINDER_INTERVAL now s;
          a = fresh s2;
          s3 = setTimeout (StaffCb c) STAFF_ALERT_TIME now s2
      in (case timers s3 c of
            None \<Rightarrow> s3
          | Some t \<Rightarrow>
              if start t = Some h
              then s3\<lparr>timers := (timers s3)(c \<mapsto> t\<lparr>repeat := Some r, staff := Some a\<rparr>)\<rparr>
              else s3))"

text \<open>The whole callback, run to completion with nothing in between.\<close>

definition startCallback :: "chan \<Rightarrow> nat \<Rightarrow> int \<Rightarrow> state \<Rightarrow> state" where
  "startCallback c h now s =
     (case startSave c h now s of
        None \<Rightarrow> s
      | Some s1 \<Rightarrow> armTimers c h now s1)"

definition getTimeElapsed :: "int \<Rightarrow> int \<Rightarrow> int \<times> int" where
  "getTimeElapsed startTime now =
     (let elapsed = now - startTime
      in (elapsed div (60 * 60 * 1000), jsrem elapsed (60 * 60 * 1000) div (60 * 1000)))"

subsection \<open>The runtime firing a timer\<close>

definition runCallback :: "callback \<Rightarrow> nat \<Rightarrow> int \<Rightarrow> state \<Rightarrow> state" where
  "runCallback cb h now s =
     (case cb of
        StartCb c \<Rightarrow> startCallback c h now s
      | ReminderCb c \<Rightarrow> sendReminder c s
      | StaffCb c \<Rightarrow> sendStaffAlert c s)"

text \<open>
  The timer with handle \<open>h\<close> fires at time \<open>now\<close>: a timeout leaves the queue, an
  interval is re-armed one period after the firing, and the callback runs.
\<close>

definition fire :: "nat \<Rightarrow> int \<Rightarrow> state \<Rightarrow> state" where
  "fire h now s =
     (case find (\<lambda>p. hid p = h) (queue s) of
        None \<Rightarrow> s
      | Some p \<Rightarrow>
          (let q = (case every p of
                      None \<Rightarrow> filter (\<lambda>x. hid x \<noteq> h) (queue s)
                    | Some d \<Rightarrow> map (\<lambda>x. if hid x = h then x\<lparr>due := now + d\<rparr> else x) (queue s))
           in runCallback (act p) h now (s\<lparr>queue := q\<rparr>)))"

text \<open>
  The same firing in two steps, for a pre-delay timer. \<open>fireStart\<close>: the timer with
  handle \<open>h\<close> fires, leaves the queue, and its callback runs up to the \<open>await\<close>; if
  the save went through, the callback is now awaiting. \<open>resumeStart\<close>: the awaiting
  callback of handle \<open>h\<close> continues at time \<open>now\<close>. On any other timer \<open>fireStart\<close>
  does nothing.
\<close>

definition fireStart :: "nat \<Rightarrow> int \<Rightarrow> state \<Rightarrow> state" where
  "fireStart h now s =
     (case find (\<lambda>p. hid p = h) (queue s) of
        None \<Rightarrow> s
      | Some p \<Rightarrow>
          (case act p of
             StartCb c \<Rightarrow>
               (let s0 = s\<lparr>queue := filter (\<lambda>x. hid x \<noteq> h) (queue s)\<rparr>
                in (case startSave c h now s0 of
                      None \<Rightarrow> s0
                    | Some s1 \<Rightarrow> s1\<lparr>awaiting := awaiting s1 @ [(h, c)]\<rparr>))
           | ReminderCb c \<Rightarrow> s
           | StaffCb c \<Rightarrow> s))"

definition resumeStart :: "nat \<Rightarrow> int \<Rightarrow> state \<Rightarrow> state" where
  "resumeStart h now s =
     (case map_of (awaiting s) h of
        None \<Rightarrow> s
      | Some c \<Rightarrow> armTimers c h now (s\<lparr>awaiting := filter (\<lambda>e. fst e \<noteq> h) (awaiting s)\<rparr>))"

subsection \<open>Incoming events\<close>

text \<open>
  What the handlers read from a message: whether it has a guild, its author, the channel
  and the channel's parent, the roles of \<open>message.member\<close> (\<open>None\<close> when the member is
  absent), and the mentioned users in order. For a mentioned user, \<open>mentionMember\<close> is
  the role list of the member that \<open>guild.members.fetch\<close> returns, \<open>None\<close> when the
  fetch fails.
\<close>

record mention =
  mentionId :: user
  mentionBot :: bool
  mentionMember :: "string list option"

record message =
  guild :: bool
  authorId :: user
  authorBot :: bool
  channelId :: chan
  parentId :: "string option"
  memberRoles :: "string list option"
  mentions :: "mention list"

text \<open>
  What the handler reads from an interaction. \<open>invokerRoles = None\<close> stands for an
  interaction without a member, on which \<open>member.roles\<close> throws and the handler ends.
\<close>

record interaction =
  isCommand :: bool
  interactionChannel :: chan
  invokerRoles :: "string list option"
  commandName :: string
  action :: string
  userOption :: "user option"

definition hasStaffRole :: "config \<Rightarrow> string list \<Rightarrow> bool" where
  "hasStaffRole cfg rs = (STAFF_ROLE_ID cfg \<in> set rs \<or> KING_ROLE_ID cfg \<in> set rs)"

definition isStaff :: "config \<Rightarrow> string list option \<Rightarrow> bool" where
  "isStaff cfg m = (case m of None \<Rightarrow> False | Some rs \<Rightarrow> hasStaffRole cfg rs)"

subsection \<open>The message handler\<close>

text \<open>The loop over \<open>message.mentions.users\<close>: the first mentioned member that is neither
  staff nor a bot.\<close>

fun firstMentioned :: "config \<Rightarrow> mention list \<Rightarrow> user option" where
  "firstMentioned cfg [] = None"
| "firstMentioned cfg (m # ms) =
     (case mentionMember m of
        None \<Rightarrow> firstMentioned cfg ms
      | Some rs \<Rightarrow>
          if \<not> hasStaffRole cfg rs \<and> \<not> mentionBot m then Some (mentionId m)
          else firstMentioned cfg ms)"

definition detectCreator :: "config \<Rightarrow> message \<Rightarrow> user option" where
  "detectCreator cfg m =
     (if authorId m = TICKET_TOOL_BOT_ID cfg then firstMentioned cfg (mentions m)
      else if \<not> isStaff cfg (memberRoles m) \<and> \<not> authorBot m then Some (authorId m)
      else None)"

definition messageCreate :: "config \<Rightarrow> message \<Rightarrow> int \<Rightarrow> state \<Rightarrow> state" where
  "messageCreate cfg m now s =
     (if \<not> guild m then s
      else if authorBot m \<and> authorId m \<noteq> TICKET_TOOL_BOT_ID cfg then s
      else if parentId m \<noteq> Some (TICKET_CATEGORY_ID cfg) then s
      else
        (case findOne s (channelId m) of
           None \<Rightarrow>
             (case detectCreator cfg m of
                None \<Rightarrow> s
              | Some u \<Rightarrow>
                  if u = [] then s
                  else save (channelId m)
                         \<lparr>creatorId = u, timerStartTime = None, reminderCount = 0\<rparr> s)
         | Some d \<Rightarrow>
             if \<not> isStaff cfg (memberRoles m) \<and> authorId m = creatorId d
             then save (channelId m) (d\<lparr>timerStartTime := None, reminderCount := 0\<rparr>)
                    (clearAllTimers (channelId m) s)
             else if isStaff cfg (memberRoles m)
             then startTimers (channelId m) now (clearAllTimers (channelId m) s)
             else s))"

subsection \<open>The slash-command handler\<close>

definition reply :: "reply \<Rightarrow> state \<Rightarrow> state" where
  "reply r s = s\<lparr>sent := sent s @ [Reply r]\<rparr>"

definition timerCommand :: "chan \<Rightarrow> string \<Rightarrow> int \<Rightarrow> state \<Rightarrow> state" where
  "timerCommand c a now s =
     (if a = ''stop'' then
        (case findOne s c of
           None \<Rightarrow> reply NoActiveTimer s
         | Some d \<Rightarrow>
             if \<not> truthy (timerStartTime d) then reply NoActiveTimer s
             else reply TimerStopped
                    (save c (d\<lparr>timerStartTime := None, reminderCount := 0\<rparr>) (clearAllTimers c s)))
      else if a = ''restart'' then
        (case findOne s c of
           None \<Rightarrow> reply NoTicketData s
         | Some d \<Rightarrow>
             (let s1 = clearAllTimers c s;
                  s2 = save c (d\<lparr>timerStartTime := Some now, reminderCount := 0\<rparr>) s1;
                  r = fresh s2;
                  s3 = setInterval (ReminderCb c) REMINDER_INTERVAL now s2;
                  a = fresh s3;
                  s4 = setTimeout (StaffCb c) STAFF_ALERT_TIME now s3;
                  s5 = s4\<lparr>timers := (timers s4)(c \<mapsto> \<lparr>start = None, repeat = Some r, staff = Some a\<rparr>)\<rparr>
              in reply TimerRestarted s5))
      else if a = ''status'' then
        (case findOne s c of
           None \<Rightarrow> reply StatusNoTicket s
         | Some d \<Rightarrow>
             (case timerStartTime d of
                None \<Rightarrow> reply StatusInactive s
              | Some t \<Rightarrow>
                  if t = 0 then reply StatusInactive s
                  else (case getTimeElapsed t now of
                          (h, mi) \<Rightarrow> reply (StatusActive h mi (reminderCount d) (creatorId d)) s)))
      else s)"

definition creatorCommand :: "chan \<Rightarrow> string \<Rightarrow> user option \<Rightarrow> state \<Rightarrow> state" where
  "creatorCommand c a u s =
     (if a = ''check'' then
        (case findOne s c of
           None \<Rightarrow> reply NoCreator s
         | Some d \<Rightarrow> reply (CreatorInfo (creatorId d)) s)
      else if a = ''assign'' then
        (case u of
           None \<Rightarrow> reply MustProvideUser s
         | Some v \<Rightarrow>
             (case findOne s c of
                None \<Rightarrow>
                  reply (CreatorAssigned v)
                    (save c \<lparr>creatorId = v, timerStartTime = None, reminderCount = 0\<rparr> s)
              | Some d \<Rightarrow> reply (CreatorAssigned v) (save c (d\<lparr>creatorId := v\<rparr>) s)))
      else s)"

definition interactionCreate :: "config \<Rightarrow> interaction \<Rightarrow> int \<Rightarrow> state \<Rightarrow> state" where
  "interactionCreate cfg i now s =
     (if \<not> isCommand i then s
      else
        (case invokerRoles i of
           None \<Rightarrow> s
         | Some rs \<Rightarrow>
             if \<not> hasStaffRole cfg rs then reply NotAuthorized s
             else if commandName i = ''timer''
             then timerCommand (interactionChannel i) (action i) now s
             else if commandName i = ''creator''
             then creatorCommand (interactionChannel i) (action i) (userOption i) s
             else s))"

subsection \<open>Channel deletion and startup recovery\<close>

definition channelDelete :: "chan \<Rightarrow> state \<Rightarrow> state" where
  "channelDelete c s =
     (case findOne s c of
        None \<Rightarrow> s
      | Some d \<Rightarrow> deleteOne c (clearAllTimers c s))"

text \<open>
  The body of the loop of the \<open>clientready\<close> handler for one loaded document. \<open>fetch c\<close>
  tells whether \<open>client.channels.fetch\<close> finds the channel; \<open>Date.now()\<close> has the
  same value \<open>now\<close> for every document of the loop. As in the source, the handle that
  the \<open>setTimeout\<close> of the one-shot reminder returns (the \<open>else\<close> branch) is not
  assigned to the \<open>timer\<close> object.
\<close>

definition recoverTicket :: "(chan \<Rightarrow> bool) \<Rightarrow> int \<Rightarrow> chan \<times> ticket \<Rightarrow> state \<Rightarrow> state" where
  "recoverTicket fetch now e s =
     (case e of (c, d) \<Rightarrow>
        (case timerStartTime d of
           None \<Rightarrow> s
         | Some t \<Rightarrow>
             if t = 0 then s
             else if fetch c then
               (let elapsed = now - t
                in if elapsed < STAFF_ALERT_TIME then
                     (let remainingTime = STAFF_ALERT_TIME - elapsed;
                          timeSinceLastReminder = jsrem elapsed REMINDER_INTERVAL;
                          timeToNextReminder = REMINDER_INTERVAL - timeSinceLastReminder;
                          r = fresh s;
                          s1 = setInterval (ReminderCb c) REMINDER_INTERVAL now s;
                          s2 = (if timeToNextReminder \<le> 1000 then sendReminder c s1
                                else setTimeout (ReminderCb c) timeToNextReminder now s1);
                          a = fresh s2;
                          s3 = setTimeout (StaffCb c) remainingTime now s2
                      in s3\<lparr>timers := (timers s3)(c \<mapsto> \<lparr>start = None, repeat = Some r, staff = Some a\<rparr>)\<rparr>)
                   else sendStaffAlert c s)
             else deleteOne c s))"

definition clientready :: "(chan \<Rightarrow> bool) \<Rightarrow> int \<Rightarrow> state \<Rightarrow> state" where
  "clientready fetch now s = fold (recoverTicket fetch now) (tickets s) s"

subsection \<open>Runs\<close>

text \<open>
  \<open>Fire h\<close> is a timer firing whose callback runs to completion before the next event;
  \<open>FireStart h\<close> and \<open>ResumeStart h\<close> are the two halves of a pre-delay callback, which
  other events may separate.
\<close>

datatype event =
    MessageCreate message
  | InteractionCreate interaction
  | ChannelDelete chan
  | Fire nat
  | FireStart nat
  | ResumeStart nat

fun step :: "config \<Rightarrow> int \<times> event \<Rightarrow> state \<Rightarrow> state" where
  "step cfg (now, MessageCreate m) s = messageCreate cfg m now s"
| "step cfg (now, InteractionCreate i) s = interactionCreate cfg i now s"
| "step cfg (now, ChannelDelete c) s = channelDelete c s"
| "step cfg (now, Fire h) s = fire h now s"
| "step cfg (now, FireStart h) s = fireStart h now s"
| "step cfg (now, ResumeStart h) s = resumeStart h now s"

text \<open>A run in which every handler and every callback runs to completion before the
  next event is handled.\<close>

fun whole :: "event \<Rightarrow> bool" where
  "whole (MessageCreate m) = True"
| "whole (InteractionCreate i) = True"
| "whole (ChannelDelete c) = True"
| "whole (Fire h) = True"
| "whole (FireStart h) = False"
| "whole (ResumeStart h) = False"

definition serial :: "(int \<times> event) list \<Rightarrow> bool" where
  "serial evs = list_all (\<lambda>e. whole (snd e)) evs"

definition exec :: "config \<Rightarrow> (int \<times> event) list \<Rightarrow> state \<Rightarrow> state" where
  "exec cfg evs s = fold (step cfg) evs s"

subsection \<open>Handles held by the \<open>timers\<close> map, and an ideal scheduler\<close>

text \<open>The handles that the \<open>timer\<close> object of a channel holds, if there is one.\<close>

definition registered :: "state \<Rightarrow> chan \<Rightarrow> nat set" where
  "registered s c =
     (case timers s c of
        None \<Rightarrow> {}
      | Some t \<Rightarrow> set_option (start t) \<union> set_option (repeat t) \<union> set_option (staff t))"

text \<open>The pending timer that is due first; among equal due times the one armed first.\<close>

fun earliest :: "pending list \<Rightarrow> pending option" where
  "earliest [] = None"
| "earliest (p # ps) =
     (case earliest ps of
        None \<Rightarrow> Some p
      | Some q \<Rightarrow> if due q < due p then Some q else Some p)"

text \<open>
  An ideal runtime: up to \<open>n\<close> times, the timer that is due first fires exactly when it
  is due, as long as that is not after \<open>lim\<close>.
\<close>

fun run :: "nat \<Rightarrow> int \<Rightarrow> state \<Rightarrow> state" where
  "run 0 lim s = s"
| "run (Suc n) lim s =
     (case earliest (queue s) of
        None \<Rightarrow> s
      | Some p \<Rightarrow> if due p \<le> lim then run n lim (fire (hid p) (due p) s) else s)"

subsection \<open>Concrete scenarios\<close>

definition cfg0 :: config where
  "cfg0 = \<lparr>TICKET_CATEGORY_ID = ''cat'', STAFF_ROLE_ID = ''staff'', KING_ROLE_ID = ''king'',
            TICKET_TOOL_BOT_ID = ''tool''\<rparr>"

text \<open>Messages in the ticket channel \<open>c1\<close>: from its creator \<open>u1\<close>, from a staff member,
  and from a bot \<open>b7\<close> that is not the intake bot.\<close>

definition creatorMsg :: message where
  "creatorMsg = \<lparr>guild = True, authorId = ''u1'', authorBot = False, channelId = ''c1'',
                  parentId = Some ''cat'', memberRoles = Some [], mentions = []\<rparr>"

definition staffMsg :: message where
  "staffMsg = \<lparr>guild = True, authorId = ''s1'', authorBot = False, channelId = ''c1'',
                parentId = Some ''cat'', memberRoles = Some [''staff''], mentions = []\<rparr>"

definition botMsg :: message where
  "botMsg = \<lparr>guild = True, authorId = ''b7'', authorBot = True, channelId = ''c1'',
              parentId = Some ''cat'', memberRoles = Some [], mentions = []\<rparr>"

text \<open>Slash commands of a staff member in \<open>c1\<close>.\<close>

definition staffCommand :: "string \<Rightarrow> string \<Rightarrow> user option \<Rightarrow> interaction" where
  "staffCommand n a u = \<lparr>isCommand = True, interactionChannel = ''c1'',
     invokerRoles = Some [''staff''], commandName = n, action = a, userOption = u\<rparr>"

text \<open>A ticket of \<open>u1\<close> with no timer running.\<close>

definition idleDb :: "(chan \<times> ticket) list" where
  "idleDb = [(''c1'', \<lparr>creatorId = ''u1'', timerStartTime = None, reminderCount = 0\<rparr>)]"

text \<open>
  The uninterrupted process: a staff message at 1000 ms, the pre-delay ends at
  601000 ms, which becomes \<open>timerStartTime\<close>.
\<close>

definition liveRun :: "int \<Rightarrow> state" where
  "liveRun lim = run 10 lim (exec cfg0 [(1000, MessageCreate staffMsg)] (boot idleDb))"

text \<open>
  The same process stopped seven hours after \<open>timerStartTime\<close> (at 25801000 ms, one
  reminder sent) and started again at once on what it had persisted.
\<close>

definition restarted :: state where
  "restarted = clientready (\<lambda>c. True) 25801000 (boot (tickets (liveRun 25801000)))"

text \<open>
  A persisted ticket whose timer started at 1000 ms with one reminder sent, recovered at
  25201000 ms, seven hours later.
\<close>

definition activeDb :: "(chan \<times> ticket) list" where
  "activeDb = [(''c1'', \<lparr>creatorId = ''u1'', timerStartTime = Some 1000, reminderCount = 1\<rparr>)]"

definition recovered :: state where
  "recovered = clientready (\<lambda>c. True) 25201000 (boot activeDb)"

text \<open>A ticket whose creator was set to the bot \<open>b7\<close>, with its timer running.\<close>

definition botTicket :: state where
  "botTicket = exec cfg0 [(2000, InteractionCreate (staffCommand ''timer'' ''restart'' None))]
     (boot [(''c1'', \<lparr>creatorId = ''b7'', timerStartTime = None, reminderCount = 0\<rparr>)])"

text \<open>Further persisted collections and process starts.\<close>

definition startedDb :: "(chan \<times> ticket) list" where
  "startedDb = [(''c1'', \<lparr>creatorId = ''u1'', timerStartTime = Some 1000, reminderCount = 0\<rparr>)]"

text \<open>Recovery two seconds before the first reminder of \<open>startedDb\<close> is due.\<close>

definition recoveredLate :: state where
  "recoveredLate = clientready (\<lambda>c. True) 21599000 (boot startedDb)"


text \<open>A ticket whose 24 hours ran out while the process was down, and two process
  starts on it, 25 and 26 hours after \<open>timerStartTime\<close>.\<close>

definition expiredDb :: "(chan \<times> ticket) list" where
  "expiredDb = [(''c1'', \<lparr>creatorId = ''u1'', timerStartTime = Some 1000, reminderCount = 3\<rparr>)]"

definition firstStart :: state where
  "firstStart = clientready (\<lambda>c. True) 90001000 (boot expiredDb)"

definition secondStart :: state where
  "secondStart = clientready (\<lambda>c. True) 93601000 (boot (tickets firstStart))"

text \<open>
  A run after \<open>firstStart\<close>, whose recovery has sent the alert for the start time
  1000: a staff member restarts the timer (handles 0 and 1), and the new staff alert
  fires 24 hours later.
\<close>

definition expiredRun :: "(int \<times> event) list" where
  "expiredRun = [(90100000, InteractionCreate (staffCommand ''timer'' ''restart'' None)),
     (176500000, Fire 1)]"

text \<open>
  A run on the idle ticket in which a staff message is handled while a pre-delay callback
  awaits its save. The pre-delay timer (handle 0) fires at 601000 ms and saves; a second
  staff message is handled, which removes the \<open>timer\<close> object of the first from
  \<open>timers\<close> and arms a new pre-delay timer (handle 1); the callback continues and arms
  an interval and a staff alert (handles 2 and 3) on the removed object. The second
  pre-delay timer fires ten minutes later, sets \<open>timerStartTime\<close> to 1201000 and arms
  handles 4 and 5. Then every timer fires when it is due, up to the second staff alert.
\<close>

definition raceRun :: "(int \<times> event) list" where
  "raceRun = [(1000, MessageCreate staffMsg), (601000, FireStart 0),
     (601000, MessageCreate staffMsg), (601000, ResumeStart 0), (1201000, Fire 1),
     (22201000, Fire 2), (22801000, Fire 4), (43801000, Fire 2), (44401000, Fire 4),
     (65401000, Fire 2), (66001000, Fire 4), (87001000, Fire 2), (87001000, Fire 3),
     (87601000, Fire 4), (87601000, Fire 5)]"

text \<open>
  A run after \<open>recoveredLate\<close> (handles 0, 1 and 2: interval, one-shot reminder, staff
  alert): a staff message arms the pre-delay timer (handle 3) on the document it
  fetched, with \<open>reminderCount = 0\<close>; the one-shot reminder fires a second later; the
  pre-delay callback runs when due.
\<close>

definition staleRun :: "(int \<times> event) list" where
  "staleRun = [(21600000, MessageCreate staffMsg), (21601000, Fire 1), (22200000, Fire 3)]"

text \<open>
  Two runs on the idle ticket. In the first a staff message starts the pre-delay, the
  timer starts and the first reminder fires. In the second, staff messages come less than
  ten minutes apart while the handles of earlier pre-delay timers are tried.
\<close>

definition firstReminderRun :: "(int \<times> event) list" where
  "firstReminderRun = [(1000, MessageCreate staffMsg), (601000, Fire 0), (22201000, Fire 1)]"

definition quickRun :: "(int \<times> event) list" where
  "quickRun = [(300000, MessageCreate staffMsg), (601000, Fire 0),
     (899999, MessageCreate staffMsg), (1499998, Fire 1)]"

subsection \<open>Runs of one process, and the alerts it sent\<close>

text \<open>
  A run is timely when the clock never goes back and a timer does not fire before it
  is due.
\<close>

fun timely :: "config \<Rightarrow> int \<Rightarrow> (int \<times> event) list \<Rightarrow> state \<Rightarrow> bool" where
  "timely cfg t [] s = True"
| "timely cfg t ((now, e) # evs) s =
     (t \<le> now
      \<and> (case e of
           Fire h \<Rightarrow> (case find (\<lambda>p. hid p = h) (queue s) of None \<Rightarrow> True | Some p \<Rightarrow> due p \<le> now)
         | FireStart h \<Rightarrow>
             (case find (\<lambda>p. hid p = h) (queue s) of None \<Rightarrow> True | Some p \<Rightarrow> due p \<le> now)
         | _ \<Rightarrow> True)
      \<and> timely cfg now evs (step cfg (now, e) s))"

text \<open>The channel and the \<open>timerStartTime\<close> of the document a staff alert was rendered
  from.\<close>

fun alertEpoch :: "outmsg \<Rightarrow> (chan \<times> int) option" where
  "alertEpoch (StaffAlert c (Some d)) = map_option (Pair c) (timerStartTime d)"
| "alertEpoch (StaffAlert c None) = None"
| "alertEpoch (Reminder c u n f) = None"
| "alertEpoch (Reply r) = None"

definition alerts :: "outmsg list \<Rightarrow> (chan \<times> int) list" where
  "alerts ms = List.map_filter alertEpoch ms"

definition isAlert :: "outmsg \<Rightarrow> bool" where
  "isAlert m = (case m of StaffAlert c d \<Rightarrow> True | _ \<Rightarrow> False)"

text \<open>
  The invariant of a run at time \<open>t\<close>. A pending pre-delay timer of a channel is the
  \<open>start\<close> handle of the channel's \<open>timer\<close> object, which holds no \<open>repeat\<close> and
  no \<open>staff\<close> handle yet, and the document its callback closed over has the
  \<open>timerStartTime\<close> of the stored document. A pending staff-alert timer of a channel
  is the \<open>staff\<close> handle of the channel's \<open>timer\<close> object, it is due
  \<open>STAFF_ALERT_TIME\<close> after the \<open>timerStartTime\<close> of the channel's document, and no alert has been sent for that
  channel and start time. Every alert sent was for a start time that lies at least
  \<open>STAFF_ALERT_TIME\<close> back, and no two alerts were sent for the same channel and start
  time.
\<close>

definition startOK :: "state \<Rightarrow> pending \<Rightarrow> chan \<Rightarrow> bool" where
  "startOK s p c =
     (every p = None
      \<and> map_option start (timers s c) = Some (Some (hid p))
      \<and> map_option repeat (timers s c) = Some None
      \<and> map_option staff (timers s c) = Some None
      \<and> map_option timerStartTime (captured s (hid p)) \<noteq> None
      \<and> map_option timerStartTime (findOne s c) = map_option timerStartTime (captured s (hid p)))"

definition staffOK :: "state \<Rightarrow> pending \<Rightarrow> chan \<Rightarrow> bool" where
  "staffOK s p c =
     (every p = None
      \<and> map_option staff (timers s c) = Some (Some (hid p))
      \<and> map_option timerStartTime (findOne s c) = Some (Some (due p - STAFF_ALERT_TIME))
      \<and> (c, due p - STAFF_ALERT_TIME) \<notin> set (alerts (sent s)))"

definition entryOK :: "state \<Rightarrow> pending \<Rightarrow> bool" where
  "entryOK s p =
     (case act p of
        StartCb c \<Rightarrow> startOK s p c
      | ReminderCb c \<Rightarrow> True
      | StaffCb c \<Rightarrow> staffOK s p c)"

definition consistent :: "int \<Rightarrow> state \<Rightarrow> bool" where
  "consistent t s =
     (distinct (map hid (queue s))
      \<and> (\<forall>p \<in> set (queue s). hid p < fresh s \<and> entryOK s p)
      \<and> (\<forall>e \<in> set (alerts (sent s)). snd e + STAFF_ALERT_TIME \<le> t)
      \<and> distinct (alerts (sent s))
      \<and> length (alerts (sent s)) = length (filter isAlert (sent s)))"

text \<open>No pre-delay timer and no staff-alert timer of channel \<open>c\<close> is pending.\<close>

definition quiet :: "state \<Rightarrow> chan \<Rightarrow> bool" where
  "quiet s c = (\<forall>p \<in> set (queue s). act p \<noteq> StaffCb c \<and> act p \<noteq> StartCb c)"

text \<open>
  A second invariant, of runs in which no one-shot reminder of a recovery is pending:
  every pending reminder timer of a channel is the \<open>repeat\<close> handle of the channel's
  \<open>timer\<close> object and the channel's document has a \<open>timerStartTime\<close>; and every
  document with a positive \<open>reminderCount\<close> has a \<open>timerStartTime\<close>.
\<close>

definition reminderOK :: "state \<Rightarrow> pending \<Rightarrow> chan \<Rightarrow> bool" where
  "reminderOK s p c =
     (map_option repeat (timers s c) = Some (Some (hid p))
      \<and> (case findOne s c of None \<Rightarrow> False | Some d \<Rightarrow> timerStartTime d \<noteq> None))"

definition docOK :: "ticket \<Rightarrow> bool" where
  "docOK d = (reminderCount d \<le> 0 \<or> timerStartTime d \<noteq> None)"

definition tidy :: "state \<Rightarrow> bool" where
  "tidy s =
     ((\<forall>p \<in> set (queue s). case act p of ReminderCb c \<Rightarrow> reminderOK s p c | _ \<Rightarrow> True)
      \<and> (\<forall>e \<in> set (tickets s). docOK (snd e)))"

text \<open>No reminder timer of channel \<open>c\<close> is pending.\<close>

definition calm :: "state \<Rightarrow> chan \<Rightarrow> bool" where
  "calm s c = (\<forall>p \<in> set (queue s). act p \<noteq> ReminderCb c)"

subsection \<open>Staff messages in quick succession\<close>

definition chanOf :: "callback \<Rightarrow> chan" where
  "chanOf cb = (case cb of StartCb c \<Rightarrow> c | ReminderCb c \<Rightarrow> c | StaffCb c \<Rightarrow> c)"

text \<open>A message that takes the staff branch of the handler for the tracked channel \<open>c\<close>.\<close>

definition staffIn :: "config \<Rightarrow> chan \<Rightarrow> message \<Rightarrow> bool" where
  "staffIn cfg c m =
     (guild m \<and> channelId m = c \<and> parentId m = Some (TICKET_CATEGORY_ID cfg)
      \<and> (\<not> authorBot m \<or> authorId m = TICKET_TOOL_BOT_ID cfg)
      \<and> isStaff cfg (memberRoles m))"

text \<open>
  A run made of staff messages in \<open>c\<close> and timer firings, in which every event comes
  less than \<open>START_DELAY\<close> after the latest staff message (\<open>lst\<close>).
\<close>

fun debounced :: "config \<Rightarrow> chan \<Rightarrow> int \<Rightarrow> (int \<times> event) list \<Rightarrow> bool" where
  "debounced cfg c lst [] = True"
| "debounced cfg c lst ((now, e) # evs) =
     (now < lst + START_DELAY
      \<and> (case e of
           MessageCreate m \<Rightarrow> staffIn cfg c m \<and> debounced cfg c now evs
         | Fire h \<Rightarrow> debounced cfg c lst evs
         | _ \<Rightarrow> False))"

text \<open>The reminders sent in channel \<open>c\<close>.\<close>

definition remindersFor :: "chan \<Rightarrow> outmsg list \<Rightarrow> outmsg list" where
  "remindersFor c ms = filter (\<lambda>m. case m of Reminder c' u n f \<Rightarrow> c' = c | _ \<Rightarrow> False) ms"

text \<open>The only pending timers of channel \<open>c\<close> are pre-delay timers due
  \<open>START_DELAY\<close> after \<open>lst\<close>.\<close>

definition onlyStart :: "chan \<Rightarrow> int \<Rightarrow> state \<Rightarrow> bool" where
  "onlyStart c lst s =
     (\<forall>p \<in> set (queue s). chanOf (act p) \<noteq> c \<or> (act p = StartCb c \<and> due p = lst + START_DELAY))"

section \<open>Verified properties\<close>

subsection \<open>Facts about the collection and the timer facility\<close>

lemmas prims = findOne_def save_def deleteOne_def setTimeout_def setInterval_def reply_def
  update_conv' delete_conv'

lemma findOne_save: "findOne (save c d s) c' = (if c' = c then Some d else findOne s c')"
  by (simp add: findOne_def save_def update_conv')

lemma findOne_reply: "findOne (reply r s) c = findOne s c"
  by (simp add: findOne_def reply_def)

lemma save_fields:
  "timers (save c d s) = timers s" "queue (save c d s) = queue s"
  "fresh (save c d s) = fresh s" "sent (save c d s) = sent s"
  "captured (save c d s) = captured s" "awaiting (save c d s) = awaiting s"
  by (simp_all add: save_def)

lemma reply_fields:
  "tickets (reply r s) = tickets s" "timers (reply r s) = timers s"
  "queue (reply r s) = queue s" "fresh (reply r s) = fresh s"
  "sent (reply r s) = sent s @ [Reply r]"
  "captured (reply r s) = captured s" "awaiting (reply r s) = awaiting s"
  by (simp_all add: reply_def)

lemma queue_clearAllTimers:
  "queue (clearAllTimers c s) = filter (\<lambda>p. hid p \<notin> registered s c) (queue s)"
  by (auto simp: clearAllTimers_def registered_def clearHandle_def split: option.splits
      intro: filter_cong)

lemma clearAllTimers_fields:
  "tickets (clearAllTimers c s) = tickets s" "fresh (clearAllTimers c s) = fresh s"
  "sent (clearAllTimers c s) = sent s" "timers (clearAllTimers c s) = (timers s)(c := None)"
  "findOne (clearAllTimers c s) c' = findOne s c'"
  "captured (clearAllTimers c s) = captured s" "awaiting (clearAllTimers c s) = awaiting s"
  by (auto simp: clearAllTimers_def findOne_def split: option.splits)

text \<open>\<open>clearAllTimers\<close> is idempotent, and afterwards no handle that the \<open>timer\<close>
  object held is pending.\<close>

lemma clearAllTimers_idem: "clearAllTimers c (clearAllTimers c s) = clearAllTimers c s"
  by (simp add: clearAllTimers_def split: option.splits)

lemma clearAllTimers_registered:
  "p \<in> set (queue (clearAllTimers c s)) \<Longrightarrow> hid p \<notin> registered s c"
  by (simp add: queue_clearAllTimers)

subsection \<open>Messages of other bots\<close>

text \<open>
  Claim C10. A message whose author is a bot other than the intake bot
  (\<open>TICKET_TOOL_BOT_ID\<close>) is ignored: whatever the message, the time and the state
  are, the handler returns the state as it was, so no document is created or changed, no
  timer is armed or cancelled, and nothing is sent. This holds also when the bot's id
  is the \<open>creatorId\<close> of the ticket.
\<close>

theorem other_bot_message_ignored:
  assumes "authorBot m" and "authorId m \<noteq> TICKET_TOOL_BOT_ID cfg"
  shows "messageCreate cfg m now s = s"
  using assms by (simp add: messageCreate_def)

text \<open>The bot \<open>b7\<close> writes in the ticket whose creator it is, while the timer runs.\<close>

theorem other_bot_message_ignored_witness:
  "authorBot botMsg \<and> authorId botMsg \<noteq> TICKET_TOOL_BOT_ID cfg0
   \<and> findOne botTicket (channelId botMsg)
       = Some \<lparr>creatorId = ''b7'', timerStartTime = Some 2000, reminderCount = 0\<rparr>
   \<and> map hid (queue botTicket) = [0, 1]
   \<and> messageCreate cfg0 botMsg 5000 botTicket = botTicket"
proof -
  have a: "authorBot botMsg" and b: "authorId botMsg \<noteq> TICKET_TOOL_BOT_ID cfg0"
    by (simp_all add: botMsg_def cfg0_def)
  have c: "findOne botTicket (channelId botMsg)
             = Some \<lparr>creatorId = ''b7'', timerStartTime = Some 2000, reminderCount = 0\<rparr>"
    by code_simp
  have d: "map hid (queue botTicket) = [0, 1]"
    by code_simp
  show ?thesis
    using a b c d other_bot_message_ignored [OF a b, of 5000 botTicket] by simp
qed

subsection \<open>Manual creator assignment\<close>

text \<open>
  Claim C9. \<open>/creator assign\<close> by a staff member with a user \<open>u\<close>: afterwards the
  channel's document is the old one with \<open>creatorId\<close> replaced by \<open>u\<close>, or a new
  document with \<open>creatorId = u\<close>, no \<open>timerStartTime\<close> and \<open>reminderCount = 0\<close> if
  there was none. The documents of other channels, the \<open>timers\<close> map, the pending
  timers and the handle counter are unchanged; the only thing sent is the confirmation.
\<close>

theorem creator_assign_frame:
  assumes "isCommand i" and "invokerRoles i = Some rs" and "hasStaffRole cfg rs"
    and "commandName i = ''creator''" and "action i = ''assign''" and "userOption i = Some u"
    and "s' = interactionCreate cfg i now s"
  shows "findOne s' (interactionChannel i)
           = Some (case findOne s (interactionChannel i) of
                     None \<Rightarrow> \<lparr>creatorId = u, timerStartTime = None, reminderCount = 0\<rparr>
                   | Some d \<Rightarrow> d\<lparr>creatorId := u\<rparr>)
       \<and> (\<forall>c. c \<noteq> interactionChannel i \<longrightarrow> findOne s' c = findOne s c)
       \<and> timers s' = timers s \<and> queue s' = queue s \<and> fresh s' = fresh s
       \<and> sent s' = sent s @ [Reply (CreatorAssigned u)]"
  using assms
  by (auto simp: interactionCreate_def creatorCommand_def findOne_save findOne_reply
      save_fields reply_fields split: option.splits)

text \<open>Seven hours into a running timer, the creator is changed from \<open>u1\<close> to \<open>u2\<close>.\<close>

theorem creator_assign_frame_witness:
  "isCommand (staffCommand ''creator'' ''assign'' (Some ''u2''))
   \<and> invokerRoles (staffCommand ''creator'' ''assign'' (Some ''u2'')) = Some [''staff'']
   \<and> hasStaffRole cfg0 [''staff'']
   \<and> findOne (liveRun 25801000) ''c1''
       = Some \<lparr>creatorId = ''u1'', timerStartTime = Some 601000, reminderCount = 1\<rparr>
   \<and> findOne (interactionCreate cfg0 (staffCommand ''creator'' ''assign'' (Some ''u2'')) 30000000
         (liveRun 25801000)) ''c1''
       = Some \<lparr>creatorId = ''u2'', timerStartTime = Some 601000, reminderCount = 1\<rparr>
   \<and> map hid (queue (liveRun 25801000)) = [1, 2]
   \<and> queue (interactionCreate cfg0 (staffCommand ''creator'' ''assign'' (Some ''u2'')) 30000000
         (liveRun 25801000)) = queue (liveRun 25801000)
   \<and> timers (interactionCreate cfg0 (staffCommand ''creator'' ''assign'' (Some ''u2'')) 30000000
         (liveRun 25801000)) = timers (liveRun 25801000)"
proof -
  let ?i = "staffCommand ''creator'' ''assign'' (Some ''u2'')"
  have h: "isCommand ?i" "invokerRoles ?i = Some [''staff'']" "hasStaffRole cfg0 [''staff'']"
    "commandName ?i = ''creator''" "action ?i = ''assign''" "userOption ?i = Some ''u2''"
    "interactionChannel ?i = ''c1''"
    by (simp_all add: staffCommand_def hasStaffRole_def cfg0_def)
  have f: "findOne (liveRun 25801000) ''c1''
       = Some \<lparr>creatorId = ''u1'', timerStartTime = Some 601000, reminderCount = 1\<rparr>"
    by code_simp
  have q: "map hid (queue (liveRun 25801000)) = [1, 2]"
    by code_simp
  show ?thesis
    using h f q creator_assign_frame[OF h(1-6) refl, where now = 30000000 and s = "liveRun 25801000"]
    by simp
qed

subsection \<open>Manual stop\<close>




subsection \<open>What recovery arms\<close>

text \<open>
  Recovery of a ticket whose timer started at \<open>T\<close>, with \<open>now - T\<close> below 24 hours and
  the next reminder more than a second away: three timers are armed. The interval is
  due one full period after the restart; the one-shot reminder is due at the next multiple
  of the period after \<open>T\<close>; the staff alert is due 24 hours after \<open>T\<close>. The \<open>timer\<close>
  object holds the handles of the interval and of the staff alert, and not the handle of
  the one-shot reminder.
\<close>

lemma recovery_arms:
  assumes "timerStartTime d = Some T" and "T \<noteq> 0" and "fetch c"
    and "0 \<le> now - T" and "now - T < STAFF_ALERT_TIME"
    and "1000 < REMINDER_INTERVAL - (now - T) mod REMINDER_INTERVAL"
  shows "queue (recoverTicket fetch now (c, d) s) = queue s @
           [\<lparr>hid = fresh s, due = now + REMINDER_INTERVAL, every = Some REMINDER_INTERVAL,
              act = ReminderCb c\<rparr>,
            \<lparr>hid = Suc (fresh s), due = now + (REMINDER_INTERVAL - (now - T) mod REMINDER_INTERVAL),
              every = None, act = ReminderCb c\<rparr>,
            \<lparr>hid = Suc (Suc (fresh s)), due = T + STAFF_ALERT_TIME, every = None,
              act = StaffCb c\<rparr>]
       \<and> timers (recoverTicket fetch now (c, d) s) c
           = Some \<lparr>start = None, repeat = Some (fresh s), staff = Some (Suc (Suc (fresh s)))\<rparr>"
proof -
  have "jsrem (now - T) REMINDER_INTERVAL = (now - T) mod REMINDER_INTERVAL"
    using assms(4) by (simp add: jsrem_def REMINDER_INTERVAL_def)
  then show ?thesis
    using assms by (simp add: recoverTicket_def Let_def setInterval_def setTimeout_def)
qed

subsection \<open>What the handlers do to the handles of the \<open>timer\<close> object\<close>

text \<open>
  A reply of the creator (not staff, not a foreign bot) to a tracked ticket: the document
  loses \<open>timerStartTime\<close> and \<open>reminderCount\<close>, the \<open>timer\<close> object is removed,
  and the pending timers that remain are those whose handle the object did not hold.
\<close>

lemma creator_reply_effect:
  assumes "guild m" and "parentId m = Some (TICKET_CATEGORY_ID cfg)"
    and "\<not> (authorBot m \<and> authorId m \<noteq> TICKET_TOOL_BOT_ID cfg)"
    and "findOne s (channelId m) = Some d"
    and "\<not> isStaff cfg (memberRoles m)" and "authorId m = creatorId d"
    and "s' = messageCreate cfg m now s"
  shows "findOne s' (channelId m) = Some (d\<lparr>timerStartTime := None, reminderCount := 0\<rparr>)
       \<and> timers s' (channelId m) = None
       \<and> queue s' = filter (\<lambda>p. hid p \<notin> registered s (channelId m)) (queue s)
       \<and> sent s' = sent s"
  using assms
  by (auto simp: messageCreate_def findOne_save save_fields clearAllTimers_fields
      queue_clearAllTimers)

text \<open>
  A staff message to a tracked ticket: the document is untouched, the handles of the
  \<open>timer\<close> object are cancelled, and one pre-delay timer is armed and stored.
\<close>

lemma staff_message_effect:
  assumes "guild m" and "parentId m = Some (TICKET_CATEGORY_ID cfg)"
    and "\<not> (authorBot m \<and> authorId m \<noteq> TICKET_TOOL_BOT_ID cfg)"
    and "findOne s (channelId m) = Some d"
    and "isStaff cfg (memberRoles m)"
    and "s' = messageCreate cfg m now s"
  shows "tickets s' = tickets s
       \<and> timers s' (channelId m) = Some \<lparr>start = Some (fresh s), repeat = None, staff = None\<rparr>
       \<and> queue s' = filter (\<lambda>p. hid p \<notin> registered s (channelId m)) (queue s)
            @ [\<lparr>hid = fresh s, due = now + START_DELAY, every = None, act = StartCb (channelId m)\<rparr>]
       \<and> sent s' = sent s"
proof -
  have "s' = startTimers (channelId m) now (clearAllTimers (channelId m) s)"
    using assms by (auto simp: messageCreate_def)
  then show ?thesis
    using assms(4)
    by (simp add: startTimers_def clearAllTimers_fields clearAllTimers_idem Let_def
        setTimeout_def queue_clearAllTimers)
qed

text \<open>
  \<open>/timer restart\<close> by a staff member on a tracked ticket: \<open>timerStartTime\<close> becomes
  \<open>now\<close> and \<open>reminderCount\<close> 0, the handles of the old \<open>timer\<close> object are
  cancelled, the interval is armed one period ahead and the staff alert 24 hours ahead,
  and nothing but the confirmation is sent.
\<close>

lemma restart_effect:
  assumes "isCommand i" and "invokerRoles i = Some rs" and "hasStaffRole cfg rs"
    and "commandName i = ''timer''" and "action i = ''restart''"
    and "c = interactionChannel i" and "findOne s c = Some d"
    and "s' = interactionCreate cfg i now s"
  shows "findOne s' c = Some (d\<lparr>timerStartTime := Some now, reminderCount := 0\<rparr>)
       \<and> timers s' c
           = Some \<lparr>start = None, repeat = Some (fresh s), staff = Some (Suc (fresh s))\<rparr>
       \<and> queue s' = filter (\<lambda>p. hid p \<notin> registered s c) (queue s)
            @ [\<lparr>hid = fresh s, due = now + REMINDER_INTERVAL, every = Some REMINDER_INTERVAL,
                 act = ReminderCb c\<rparr>,
               \<lparr>hid = Suc (fresh s), due = now + STAFF_ALERT_TIME, every = None,
                 act = StaffCb c\<rparr>]
       \<and> sent s' = sent s @ [Reply TimerRestarted]"
proof -
  have "s' = timerCommand c ''restart'' now s"
    using assms by (simp add: interactionCreate_def)
  then show ?thesis
    using assms(7)
    by (simp add: timerCommand_def Let_def save_def setInterval_def setTimeout_def reply_def
        clearAllTimers_fields queue_clearAllTimers findOne_def update_conv')
qed

subsection \<open>The one-shot reminder of recovery\<close>

text \<open>
  Claim C4 on the code: after the recovery of a ticket seven hours into its timer,
  three timers are pending, and the \<open>timer\<close> object holds the handles 0 (interval) and
  2 (staff alert). \<open>clearAllTimers\<close> cancels those two; the one-shot reminder with
  handle 1 stays pending, and when it fires it raises \<open>reminderCount\<close> of the
  document. The claim says that after \<open>clearAllTimers\<close> no callback of the ticket,
  the recovery one-shot reminder included, can fire and change the record.
\<close>

theorem recovery_one_shot_survives_clear:
  "queue recovered
     = [\<lparr>hid = 0, due = 46801000, every = Some 21600000, act = ReminderCb ''c1''\<rparr>,
        \<lparr>hid = 1, due = 43201000, every = None, act = ReminderCb ''c1''\<rparr>,
        \<lparr>hid = 2, due = 86401000, every = None, act = StaffCb ''c1''\<rparr>]
   \<and> timers recovered ''c1'' = Some \<lparr>start = None, repeat = Some 0, staff = Some 2\<rparr>
   \<and> queue (clearAllTimers ''c1'' recovered)
     = [\<lparr>hid = 1, due = 43201000, every = None, act = ReminderCb ''c1''\<rparr>]
   \<and> findOne (clearAllTimers ''c1'' recovered) ''c1''
     = Some \<lparr>creatorId = ''u1'', timerStartTime = Some 1000, reminderCount = 1\<rparr>
   \<and> findOne (fire 1 43201000 (clearAllTimers ''c1'' recovered)) ''c1''
     = Some \<lparr>creatorId = ''u1'', timerStartTime = Some 1000, reminderCount = 2\<rparr>"
  by code_simp

text \<open>
  Claim C3 on the code: after that recovery the creator replies, which clears
  \<open>timerStartTime\<close> and \<open>reminderCount\<close>; the one-shot reminder then fires when it
  is due and leaves a document with \<open>reminderCount = 1\<close> and no \<open>timerStartTime\<close>.
  The claim says that \<open>reminderCount > 0\<close> implies a \<open>timerStartTime\<close> after every
  transition.
\<close>

theorem reminder_counted_without_timer:
  "findOne (exec cfg0 [(25300000, MessageCreate creatorMsg)] recovered) ''c1''
     = Some \<lparr>creatorId = ''u1'', timerStartTime = None, reminderCount = 0\<rparr>
   \<and> findOne (exec cfg0 [(25300000, MessageCreate creatorMsg), (43201000, Fire 1)] recovered) ''c1''
     = Some \<lparr>creatorId = ''u1'', timerStartTime = None, reminderCount = 1\<rparr>"
  by code_simp

text \<open>
  Claim C5 on the code: a ticket is recovered two seconds before its first reminder is
  due, so the one-shot reminder is armed two seconds ahead. Three staff messages follow,
  half a second apart. After them the one-shot reminder (handle 1) is still pending
  beside the pre-delay timer (handle 5), and it fires within the pre-delay: a reminder is
  sent. The claim says that every staff message cancels all live handles and that no
  reminder is sent while staff messages keep arriving within the pre-delay.
\<close>

theorem reminder_during_debounce:
  "map (\<lambda>p. (hid p, due p, act p))
     (queue (exec cfg0 [(21599500, MessageCreate staffMsg), (21600000, MessageCreate staffMsg),
                        (21600500, MessageCreate staffMsg)] recoveredLate))
     = [(1, 21601000, ReminderCb ''c1''), (5, 22200500, StartCb ''c1'')]
   \<and> sent (run 10 22200499
        (exec cfg0 [(21599500, MessageCreate staffMsg), (21600000, MessageCreate staffMsg),
                    (21600500, MessageCreate staffMsg)] recoveredLate))
     = [Reminder ''c1'' ''u1'' 1 False]"
  by code_simp

text \<open>
  Claim C6 on the code: after the recovery of \<open>activeDb\<close> the creator replies. The
  document is cleared and the \<open>timer\<close> object is removed, but the one-shot reminder is
  still pending, and when it is due a reminder is sent to the creator who has replied.
  The claim says that the reply leaves the ticket with zero live handles.
\<close>

theorem creator_reply_leaves_one_shot:
  "timers (exec cfg0 [(25300000, MessageCreate creatorMsg)] recovered) ''c1'' = None
   \<and> queue (exec cfg0 [(25300000, MessageCreate creatorMsg)] recovered)
     = [\<lparr>hid = 1, due = 43201000, every = None, act = ReminderCb ''c1''\<rparr>]
   \<and> sent (run 10 43201000 (exec cfg0 [(25300000, MessageCreate creatorMsg)] recovered))
     = [Reminder ''c1'' ''u1'' 1 False]"
  by code_simp

text \<open>
  Claim C8 on the code: after the recovery of \<open>activeDb\<close> a staff member restarts the
  timer at 25300000 ms. The restart cancels the interval and the staff alert of the
  recovery and arms new ones, due at 46900000 ms and 111700000 ms; the one-shot reminder
  of the recovery stays pending and fires at 43201000 ms, so reminder number 1 of the new
  countdown is sent less than five hours after the restart. The claim says that the
  restart cancels all handles and that the first reminder comes one full interval later.
\<close>

theorem restart_leaves_one_shot:
  "findOne (exec cfg0 [(25300000, InteractionCreate (staffCommand ''timer'' ''restart'' None))]
              recovered) ''c1''
     = Some \<lparr>creatorId = ''u1'', timerStartTime = Some 25300000, reminderCount = 0\<rparr>
   \<and> map (\<lambda>p. (hid p, due p, act p))
        (queue (exec cfg0 [(25300000, InteractionCreate (staffCommand ''timer'' ''restart'' None))]
                  recovered))
     = [(1, 43201000, ReminderCb ''c1''), (3, 46900000, ReminderCb ''c1''),
        (4, 111700000, StaffCb ''c1'')]
   \<and> sent (run 10 46899999
        (exec cfg0 [(25300000, InteractionCreate (staffCommand ''timer'' ''restart'' None))]
           recovered))
     = [Reply TimerRestarted, Reminder ''c1'' ''u1'' 1 False]"
  by code_simp

subsection \<open>The schedule after recovery\<close>

text \<open>
  Claim C1 on the code. The uninterrupted process starts the timer at 601000 ms; seven
  hours later (25801000 ms) it has sent one reminder, its interval is next due at twelve
  hours and its staff alert at 24 hours. A process restarted at that moment on the same
  persisted document arms the one-shot reminder at twelve hours, as the claim says, but
  its interval is due six hours after the restart, at thirteen hours, and then every six
  hours from there. At thirteen hours the uninterrupted process has sent two reminders
  and the restarted one three. The claim says that the reminders after the first follow
  it in whole periods and that the count equals that of the uninterrupted process.
\<close>

theorem recovery_schedule_diverges:
  "tickets (liveRun 25801000)
     = [(''c1'', \<lparr>creatorId = ''u1'', timerStartTime = Some 601000, reminderCount = 1\<rparr>)]
   \<and> map (\<lambda>p. (due p, every p, act p)) (queue (liveRun 25801000))
     = [(43801000, Some 21600000, ReminderCb ''c1''), (87001000, None, StaffCb ''c1'')]
   \<and> tickets restarted = tickets (liveRun 25801000)
   \<and> map (\<lambda>p. (due p, every p, act p)) (queue restarted)
     = [(47401000, Some 21600000, ReminderCb ''c1''), (43801000, None, ReminderCb ''c1''),
        (87001000, None, StaffCb ''c1'')]
   \<and> map (\<lambda>e. reminderCount (snd e)) (tickets (liveRun 47401000)) = [2]
   \<and> map (\<lambda>e. reminderCount (snd e)) (tickets (run 10 47401000 restarted)) = [3]"
  by code_simp

subsection \<open>Staff alerts\<close>

text \<open>
  Claim C2, as stated, fails in two ways.

  Across restarts: nothing is persisted when the alert is sent. A process that starts 25
  hours after \<open>timerStartTime\<close> sends the alert at once and leaves the document as it
  was; a second start an hour later sends the alert again, for the same
  \<open>timerStartTime\<close>.

  Within one run: in \<open>raceRun\<close> a staff message is handled while a pre-delay callback
  awaits \<open>ticket.save()\<close>. The staff alert that the callback then arms is not held by
  the \<open>timer\<close> object in \<open>timers\<close>, it survives the next \<open>clearAllTimers\<close>, and
  it fires next to the staff alert of the second pre-delay callback: two alerts for
  the \<open>timerStartTime\<close> 1201000.
\<close>

theorem staff_alert_sent_twice:
  "sent firstStart
     = [StaffAlert ''c1''
          (Some \<lparr>creatorId = ''u1'', timerStartTime = Some 1000, reminderCount = 3\<rparr>)]
   \<and> queue firstStart = []
   \<and> tickets firstStart = expiredDb
   \<and> sent secondStart
     = [StaffAlert ''c1''
          (Some \<lparr>creatorId = ''u1'', timerStartTime = Some 1000, reminderCount = 3\<rparr>)]
   \<and> timely cfg0 0 raceRun (clientready (\<lambda>c. True) 0 (boot idleDb))
   \<and> alerts (sent (exec cfg0 raceRun (clientready (\<lambda>c. True) 0 (boot idleDb))))
     = [(''c1'', 1201000), (''c1'', 1201000)]"
  by code_simp

text \<open>
  The invariant of a run: it holds after recovery, and every timely step that is a whole
  handler or a whole callback keeps it.
\<close>

lemma alerts_append: "alerts (xs @ ys) = alerts xs @ alerts ys"
  by (induction xs) (auto simp: alerts_def map_filter_simps split: option.splits)

lemma alerts_single: "alerts [m] = (case alertEpoch m of None \<Rightarrow> [] | Some e \<Rightarrow> [e])"
  by (auto simp: alerts_def map_filter_simps split: option.splits)

lemma entry_registered:
  assumes "consistent t s" and "p \<in> set (queue s)" and "act p = StaffCb c \<or> act p = StartCb c"
  shows "hid p \<in> registered s c"
proof -
  have "entryOK s p" using assms(1,2) by (simp add: consistent_def)
  then show ?thesis
    using assms(3) by (auto simp: entryOK_def staffOK_def startOK_def registered_def)
qed

lemma clear_quiet:
  assumes "consistent t s"
  shows "quiet (clearAllTimers c s) c"
  using entry_registered[OF assms]
  by (auto simp: quiet_def queue_clearAllTimers)

lemma clear_consistent:
  assumes "consistent t s"
  shows "consistent t (clearAllTimers c s)"
proof -
  have q: "quiet (clearAllTimers c s) c" by (rule clear_quiet[OF assms])
  have "entryOK (clearAllTimers c s) p" if "p \<in> set (queue (clearAllTimers c s))" for p
  proof -
    have p: "p \<in> set (queue s)" and ok: "entryOK s p"
      using that assms by (auto simp: queue_clearAllTimers consistent_def)
    show ?thesis
      using q that ok
      by (cases "act p")
        (auto simp: quiet_def entryOK_def staffOK_def startOK_def clearAllTimers_fields)
  qed
  then show ?thesis
    using assms
    by (auto simp: consistent_def clearAllTimers_fields queue_clearAllTimers distinct_map_filter)
qed


lemma consistent_mono: "consistent t s \<Longrightarrow> t \<le> t' \<Longrightarrow> consistent t' s"
  by (fastforce simp: consistent_def)

lemma consistent_entry: "consistent t s \<Longrightarrow> p \<in> set (queue s) \<Longrightarrow> entryOK s p"
  by (simp add: consistent_def)

lemma no_record_quiet:
  assumes "consistent t s" and "findOne s c = None"
  shows "quiet s c"
  unfolding quiet_def
proof
  fix p assume "p \<in> set (queue s)"
  then have "entryOK s p" using assms(1) by (rule consistent_entry[rotated])
  then show "act p \<noteq> StaffCb c \<and> act p \<noteq> StartCb c"
    using assms(2) by (auto simp: entryOK_def staffOK_def startOK_def)
qed

lemma sent_consistent:
  assumes "consistent t s" and "alertEpoch m = None" and "\<not> isAlert m"
  shows "consistent t (s\<lparr>sent := sent s @ [m]\<rparr>)"
proof -
  have a: "alerts (sent s @ [m]) = alerts (sent s)"
    using assms(2) by (simp add: alerts_append alerts_single)
  have "entryOK (s\<lparr>sent := sent s @ [m]\<rparr>) p = entryOK s p" for p
    by (cases "act p") (simp_all add: entryOK_def startOK_def staffOK_def a findOne_def)
  then show ?thesis
    using assms by (simp add: consistent_def a)
qed

lemma reply_consistent: "consistent t s \<Longrightarrow> consistent t (reply r s)"
  unfolding reply_def by (rule sent_consistent) (simp_all add: isAlert_def)

lemma save_consistent:
  assumes "consistent t s" and "quiet s c"
  shows "consistent t (save c d s)"
proof -
  have "entryOK (save c d s) p" if "p \<in> set (queue s)" for p
    using consistent_entry[OF assms(1) that] assms(2) that
    by (cases "act p") (auto simp: entryOK_def startOK_def staffOK_def quiet_def prims)
  then show ?thesis
    using assms(1) by (simp add: consistent_def save_def)
qed

lemma save_same_epoch_consistent:
  assumes "consistent t s" and "findOne s c = Some d0"
    and "timerStartTime d = timerStartTime d0"
  shows "consistent t (save c d s)"
proof -
  have "entryOK (save c d s) p" if "p \<in> set (queue s)" for p
    using consistent_entry[OF assms(1) that] assms(2,3)
    by (cases "act p") (auto simp: entryOK_def startOK_def staffOK_def prims)
  then show ?thesis
    using assms(1) by (simp add: consistent_def save_def)
qed

lemma deleteOne_consistent:
  assumes "consistent t s" and "quiet s c"
  shows "consistent t (deleteOne c s)"
proof -
  have "entryOK (deleteOne c s) p" if "p \<in> set (queue s)" for p
    using consistent_entry[OF assms(1) that] assms(2) that
    by (cases "act p") (auto simp: entryOK_def startOK_def staffOK_def quiet_def prims)
  then show ?thesis
    using assms(1) by (simp add: consistent_def deleteOne_def)
qed


lemma arm_reminder_consistent:
  assumes "consistent t s"
  shows "consistent t (setInterval (ReminderCb c) d now s)"
    and "consistent t (setTimeout (ReminderCb c) d now s)"
proof -
  have "entryOK (setInterval (ReminderCb c) d now s) p
        \<and> entryOK (setTimeout (ReminderCb c) d now s) p" if "p \<in> set (queue s)" for p
    using consistent_entry[OF assms that]
    by (cases "act p") (auto simp: entryOK_def startOK_def staffOK_def prims)
  then show "consistent t (setInterval (ReminderCb c) d now s)"
    and "consistent t (setTimeout (ReminderCb c) d now s)"
    using assms by (auto simp: consistent_def prims entryOK_def)
qed

lemma arm_start_consistent:
  assumes "consistent t s" and "quiet s c" and "findOne s c = Some d0"
  shows "consistent t
           ((setTimeout (StartCb c) d now s)
              \<lparr>timers := (timers (setTimeout (StartCb c) d now s))
                 (c \<mapsto> \<lparr>start = Some (fresh s), repeat = None, staff = None\<rparr>),
               captured := (captured (setTimeout (StartCb c) d now s))(fresh s \<mapsto> d0)\<rparr>)"
    (is "consistent t ?s'")
proof -
  have lt: "hid p \<noteq> fresh s" if "p \<in> set (queue s)" for p
    using assms(1) that by (fastforce simp: consistent_def)
  have "entryOK ?s' p" if "p \<in> set (queue s)" for p
    using consistent_entry[OF assms(1) that] assms(2) that lt[OF that]
    by (cases "act p") (auto simp: entryOK_def startOK_def staffOK_def prims quiet_def)
  then show ?thesis
    using assms(1,3) by (auto simp: consistent_def prims entryOK_def startOK_def)
qed

lemma arm_staff_consistent:
  assumes "consistent t s" and "quiet s c"
    and "findOne s c = Some d" and "timerStartTime d = Some (now + delay - STAFF_ALERT_TIME)"
    and "(c, now + delay - STAFF_ALERT_TIME) \<notin> set (alerts (sent s))"
    and "staff tm = Some (fresh s)"
  shows "consistent t
           ((setTimeout (StaffCb c) delay now s)
              \<lparr>timers := (timers (setTimeout (StaffCb c) delay now s))(c \<mapsto> tm)\<rparr>)"
    (is "consistent t ?s'")
proof -
  have "entryOK ?s' p" if "p \<in> set (queue s)" for p
    using consistent_entry[OF assms(1) that] assms(2) that
    by (cases "act p") (auto simp: entryOK_def startOK_def staffOK_def prims quiet_def)
  then show ?thesis
    using assms by (auto simp: consistent_def prims entryOK_def staffOK_def)
qed

lemma quiet_prims:
  "quiet (save c' d s) c = quiet s c"
  "quiet (reply r s) c = quiet s c"
  "quiet (setInterval (ReminderCb c') p now s) c = quiet s c"
  "quiet (setTimeout (ReminderCb c') p now s) c = quiet s c"
  by (auto simp: quiet_def prims)

lemma startTimers_consistent:
  assumes "consistent t s"
  shows "consistent t (startTimers c now s)"
proof (cases "findOne s c")
  case None
  then show ?thesis using assms by (simp add: startTimers_def)
next
  case (Some d)
  show ?thesis
    using arm_start_consistent[OF clear_consistent[OF assms] clear_quiet[OF assms],
        of c d START_DELAY now]
    by (simp add: startTimers_def Some Let_def clearAllTimers_fields)
qed

lemma stop_consistent:
  assumes "consistent t s"
  shows "consistent t (save c d (clearAllTimers c s))"
  using clear_consistent[OF assms] clear_quiet[OF assms]
  by (intro save_consistent)

lemma messageCreate_consistent:
  assumes "consistent t s"
  shows "consistent t (messageCreate cfg m now s)"
  using assms
  by (auto simp: messageCreate_def stop_consistent startTimers_consistent clear_consistent
      intro!: save_consistent no_record_quiet split: option.splits)

lemma channelDelete_consistent:
  assumes "consistent t s"
  shows "consistent t (channelDelete c s)"
  using clear_consistent[OF assms] clear_quiet[OF assms] assms
  by (auto simp: channelDelete_def intro!: deleteOne_consistent split: option.splits)


lemma alert_epochs_past:
  assumes "consistent t s" and "t \<le> now"
  shows "(c, now) \<notin> set (alerts (sent s))"
proof
  assume "(c, now) \<in> set (alerts (sent s))"
  then have "now + STAFF_ALERT_TIME \<le> t"
    using assms(1) by (fastforce simp: consistent_def)
  then show False using assms(2) by (simp add: STAFF_ALERT_TIME_def)
qed

lemma rearm_consistent:
  assumes "consistent t s" and "quiet s c" and "t \<le> now" and "timerStartTime d = Some now"
    and "staff tm = Some (Suc (fresh s))"
  shows "consistent t
     ((setTimeout (StaffCb c) STAFF_ALERT_TIME now
        (setInterval (ReminderCb c) REMINDER_INTERVAL now (save c d s)))
      \<lparr>timers := (timers s)(c \<mapsto> tm)\<rparr>)"
proof -
  let ?s2 = "save c d s"
  let ?s3 = "setInterval (ReminderCb c) REMINDER_INTERVAL now ?s2"
  have c3: "consistent t ?s3"
    by (intro arm_reminder_consistent save_consistent assms(1,2))
  have q3: "quiet ?s3 c"
    using assms(2) by (simp add: quiet_prims)
  have f3: "findOne ?s3 c = Some d"
    by (simp add: prims)
  have e3: "timerStartTime d = Some (now + STAFF_ALERT_TIME - STAFF_ALERT_TIME)"
    using assms(4) by simp
  have a3: "(c, now + STAFF_ALERT_TIME - STAFF_ALERT_TIME) \<notin> set (alerts (sent ?s3))"
    using alert_epochs_past[OF assms(1,3), of c] by (simp add: prims)
  have h3: "staff tm = Some (fresh ?s3)"
    using assms(5) by (simp add: prims)
  have t3: "timers (setTimeout (StaffCb c) STAFF_ALERT_TIME now ?s3) = timers s"
    by (simp add: prims)
  show ?thesis
    using arm_staff_consistent[OF c3 q3 f3 e3 a3 h3] by (simp only: t3)
qed

lemma restart_consistent:
  assumes "consistent t s" and "t \<le> now"
  shows "consistent t (timerCommand c ''restart'' now s)"
proof (cases "findOne s c")
  case None
  then show ?thesis using assms(1) by (simp add: timerCommand_def reply_consistent)
next
  case (Some d)
  let ?tm = "\<lparr>start = None, repeat = Some (fresh s), staff = Some (Suc (fresh s))\<rparr>"
  let ?s1 = "clearAllTimers c s"
  have eq: "timerCommand c ''restart'' now s = reply TimerRestarted
     ((setTimeout (StaffCb c) STAFF_ALERT_TIME now
        (setInterval (ReminderCb c) REMINDER_INTERVAL now
          (save c (d\<lparr>timerStartTime := Some now, reminderCount := 0\<rparr>) ?s1)))
      \<lparr>timers := (timers ?s1)(c \<mapsto> ?tm)\<rparr>)"
    by (simp add: timerCommand_def Some Let_def save_def setInterval_def setTimeout_def
        reply_def clearAllTimers_fields)
  have "timerStartTime (d\<lparr>timerStartTime := Some now, reminderCount := 0\<rparr>) = Some now"
    "staff ?tm = Some (Suc (fresh ?s1))"
    by (simp_all add: clearAllTimers_fields)
  then show ?thesis
    unfolding eq
    by (intro reply_consistent rearm_consistent clear_consistent[OF assms(1)]
        clear_quiet[OF assms(1)] assms(2))
qed

lemma timerCommand_consistent:
  assumes "consistent t s" and "t \<le> now"
  shows "consistent t (timerCommand c a now s)"
proof -
  consider "a = ''stop''" | "a = ''restart''" | "a \<noteq> ''stop''" "a \<noteq> ''restart''"
    by blast
  then show ?thesis
  proof cases
    case 1
    then show ?thesis
      using assms(1)
      by (auto simp: timerCommand_def intro!: reply_consistent stop_consistent
          split: option.splits)
  next
    case 2
    then show ?thesis using restart_consistent[OF assms] by simp
  next
    case 3
    then show ?thesis
      using assms(1)
      by (auto simp: timerCommand_def intro!: reply_consistent split: option.splits prod.splits)
  qed
qed

lemma creatorCommand_consistent:
  assumes "consistent t s"
  shows "consistent t (creatorCommand c a u s)"
proof (cases "findOne s c")
  case None
  then show ?thesis
    using assms
    by (auto simp: creatorCommand_def intro!: reply_consistent save_consistent no_record_quiet
        split: option.splits)
next
  case (Some d)
  then show ?thesis
    using assms
    by (auto simp: creatorCommand_def intro!: reply_consistent save_same_epoch_consistent
        split: option.splits)
qed

lemma interactionCreate_consistent:
  assumes "consistent t s" and "t \<le> now"
  shows "consistent t (interactionCreate cfg i now s)"
  using assms
  by (auto simp: interactionCreate_def timerCommand_consistent creatorCommand_consistent
      reply_consistent split: option.splits)


lemma entryOK_queue: "entryOK (s\<lparr>queue := q\<rparr>) p = entryOK s p"
  by (cases "act p") (simp_all add: entryOK_def startOK_def staffOK_def findOne_def)

lemma queue_consistent:
  assumes "consistent t s" and "distinct (map hid q)"
    and "\<forall>y \<in> set q. hid y < fresh s \<and> entryOK s y"
  shows "consistent t (s\<lparr>queue := q\<rparr>)"
  using assms by (simp add: consistent_def entryOK_queue)

lemma remove_consistent:
  assumes "consistent t s"
  shows "consistent t (s\<lparr>queue := filter (\<lambda>x. hid x \<noteq> h) (queue s)\<rparr>)"
  using assms by (auto simp: consistent_def entryOK_queue distinct_map_filter)

lemma rearm_interval_consistent:
  assumes "consistent t s" and "p \<in> set (queue s)" and "hid p = h" and "every p = Some d"
  shows "consistent t
           (s\<lparr>queue := map (\<lambda>x. if hid x = h then x\<lparr>due := now + d\<rparr> else x) (queue s)\<rparr>)"
proof -
  let ?f = "\<lambda>x. if hid x = h then x\<lparr>due := now + d\<rparr> else x"
  have hid: "map hid (map ?f (queue s)) = map hid (queue s)"
    by (induction "queue s") auto
  have dist: "distinct (map hid (queue s))"
    using assms(1) by (simp add: consistent_def)
  have same: "x = p" if "x \<in> set (queue s)" "hid x = h" for x
    using that assms(2,3) dist by (simp add: distinct_map inj_on_def)
  have "entryOK s p" using assms(1,2) by (rule consistent_entry)
  then have rem: "entryOK s (p\<lparr>due := now + d\<rparr>)"
    using assms(4) by (cases "act p") (auto simp: entryOK_def startOK_def staffOK_def)
  have ok: "entryOK s (?f x)" if "x \<in> set (queue s)" for x
    using that same[OF that] rem consistent_entry[OF assms(1) that] by auto
  have lt: "hid (?f x) < fresh s" if "x \<in> set (queue s)" for x
    using that assms(1) by (auto simp: consistent_def)
  have "\<forall>y \<in> set (map ?f (queue s)). hid y < fresh s \<and> entryOK s y"
  proof
    fix y assume "y \<in> set (map ?f (queue s))"
    then obtain x where "x \<in> set (queue s)" "y = ?f x"
      unfolding set_map by (elim imageE)
    then show "hid y < fresh s \<and> entryOK s y"
      using ok[of x] lt[of x] by (simp only:)
  qed
  moreover have "distinct (map hid (map ?f (queue s)))"
    using dist by (simp only: hid)
  ultimately show ?thesis
    by (intro queue_consistent assms(1))
qed

lemma sendReminder_consistent:
  assumes "consistent t s"
  shows "consistent t (sendReminder c s)"
proof (cases "findOne s c")
  case None
  then show ?thesis using assms by (simp add: sendReminder_def)
next
  case (Some d)
  have "consistent t (save c (d\<lparr>reminderCount := reminderCount d + 1\<rparr>) s)"
    using assms Some by (rule save_same_epoch_consistent) simp
  then show ?thesis
    unfolding sendReminder_def Some option.case Let_def
    by (rule sent_consistent) (simp_all add: isAlert_def)
qed

lemma sendStaffAlert_consistent:
  assumes "consistent t s" and "t \<le> now" and "p \<in> set (queue s)" and "act p = StaffCb c"
    and "due p \<le> now"
  shows "consistent now
           (sendStaffAlert c (s\<lparr>queue := filter (\<lambda>x. hid x \<noteq> hid p) (queue s)\<rparr>))"
    (is "consistent now ?s'")
proof -
  let ?T = "due p - STAFF_ALERT_TIME"
  have ok: "staffOK s p c"
    using consistent_entry[OF assms(1,3)] assms(4) by (simp add: entryOK_def)
  then obtain d where d: "findOne s c = Some d" "timerStartTime d = Some ?T"
    by (auto simp: staffOK_def)
  have new: "(c, ?T) \<notin> set (alerts (sent s))"
    using ok by (simp add: staffOK_def)
  have sent: "sent ?s' = sent s @ [StaffAlert c (Some d)]"
    by (simp add: sendStaffAlert_def findOne_def d[unfolded findOne_def])
  have al: "alerts (sent ?s') = alerts (sent s) @ [(c, ?T)]"
    by (simp add: sent alerts_append alerts_single d)
  have q: "queue ?s' = filter (\<lambda>x. hid x \<noteq> hid p) (queue s)"
    and f: "fresh ?s' = fresh s" and tm: "timers ?s' = timers s"
    and fo: "findOne ?s' = findOne s" and cp: "captured ?s' = captured s"
    by (simp_all add: sendStaffAlert_def findOne_def fun_eq_iff)
  have "entryOK ?s' x" if "x \<in> set (queue s)" "hid x \<noteq> hid p" for x
    using consistent_entry[OF assms(1) that(1)] that(2) ok
    by (cases "act x") (auto simp: entryOK_def startOK_def staffOK_def tm fo al cp)
  moreover have "\<forall>e \<in> set (alerts (sent s)). snd e + STAFF_ALERT_TIME \<le> now"
    using assms(1,2) by (fastforce simp: consistent_def)
  moreover have "filter isAlert (sent ?s') = filter isAlert (sent s) @ [StaffAlert c (Some d)]"
    by (simp add: sent isAlert_def)
  ultimately show ?thesis
    using assms(1,5) new
    by (auto simp: consistent_def q f al distinct_map_filter)
qed

lemma startSave_stored:
  assumes "captured s h = Some d0" and "findOne s c = Some d"
  shows "startSave c h now s
     = Some (save c
         (d\<lparr>timerStartTime :=
               (if timerStartTime d0 = Some now then timerStartTime d else Some now),
             reminderCount := (if reminderCount d0 = 0 then reminderCount d else 0)\<rparr>) s)"
  using assms by (simp add: startSave_def)

lemma startSave_fields:
  assumes "startSave c h now s = Some s1"
  shows "timers s1 = timers s" "queue s1 = queue s" "fresh s1 = fresh s" "sent s1 = sent s"
    "captured s1 = captured s" "awaiting s1 = awaiting s"
    "c' \<noteq> c \<Longrightarrow> findOne s1 c' = findOne s c'"
  using assms by (auto simp: startSave_def save_fields findOne_save split: option.splits)

lemma armTimers_held:
  assumes "timers s c = Some tm" and "start tm = Some h"
  shows "armTimers c h now s
     = (setTimeout (StaffCb c) STAFF_ALERT_TIME now
         (setInterval (ReminderCb c) REMINDER_INTERVAL now s))
       \<lparr>timers := (timers s)(c \<mapsto> tm\<lparr>repeat := Some (fresh s), staff := Some (Suc (fresh s))\<rparr>)\<rparr>"
  using assms by (simp add: armTimers_def Let_def setInterval_def setTimeout_def)

text \<open>
  The two halves of a pre-delay callback, run one after the other at the same time with
  nothing in between, are the firing that runs the callback to completion.
\<close>

lemma fire_in_two_steps:
  assumes "find (\<lambda>p. hid p = h) (queue s) = Some p" and "act p = StartCb c"
    and "every p = None" and "h \<notin> fst ` set (awaiting s)"
  shows "resumeStart h now (fireStart h now s) = fire h now s"
proof -
  let ?s0 = "s\<lparr>queue := filter (\<lambda>x. hid x \<noteq> h) (queue s)\<rparr>"
  have fi: "fire h now s = startCallback c h now ?s0"
    using assms(1,2,3) by (simp add: fire_def runCallback_def)
  have no: "map_of (awaiting s) h = None"
    using assms(4) by (simp add: map_of_eq_None_iff)
  have keep: "filter (\<lambda>e. fst e \<noteq> h) (awaiting s) = awaiting s"
    using assms(4) by (induction "awaiting s") (auto simp: filter_id_conv image_iff)
  show ?thesis
  proof (cases "startSave c h now ?s0")
    case None
    then have "fireStart h now s = ?s0"
      using assms(1,2) by (simp add: fireStart_def)
    then show ?thesis
      using None no by (simp add: fi startCallback_def resumeStart_def)
  next
    case (Some s1)
    have aw: "awaiting s1 = awaiting s"
      using startSave_fields(6)[OF Some] by simp
    have fs: "fireStart h now s = s1\<lparr>awaiting := awaiting s1 @ [(h, c)]\<rparr>"
      using assms(1,2) Some by (simp add: fireStart_def)
    have "map_of (awaiting s1 @ [(h, c)]) h = Some c"
      using no by (simp add: aw map_add_def map_of_append)
    moreover have "filter (\<lambda>e. fst e \<noteq> h) (awaiting s1 @ [(h, c)]) = awaiting s1"
      using keep by (simp add: aw)
    ultimately have "resumeStart h now (fireStart h now s) = armTimers c h now s1"
      by (simp add: fs resumeStart_def)
    then show ?thesis by (simp add: fi startCallback_def Some)
  qed
qed

text \<open>
  The pre-delay callback writes the fields it changed on the document it closed over. In
  \<open>staleRun\<close> that document had \<open>reminderCount = 0\<close>, so the count that the one-shot
  reminder stored in between stays.
\<close>

lemma start_callback_keeps_stored_count:
  "map_option reminderCount (captured (exec cfg0 [(21600000, MessageCreate staffMsg)] recoveredLate) 3)
     = Some 0
   \<and> findOne (exec cfg0 [(21600000, MessageCreate staffMsg), (21601000, Fire 1)] recoveredLate) ''c1''
     = Some \<lparr>creatorId = ''u1'', timerStartTime = Some 1000, reminderCount = 1\<rparr>
   \<and> findOne (exec cfg0 staleRun recoveredLate) ''c1''
     = Some \<lparr>creatorId = ''u1'', timerStartTime = Some 22200000, reminderCount = 1\<rparr>"
  by code_simp

lemma startCallback_consistent:
  assumes "consistent t s" and "t \<le> now" and "p \<in> set (queue s)" and "act p = StartCb c"
  shows "consistent t
           (startCallback c (hid p) now (s\<lparr>queue := filter (\<lambda>x. hid x \<noteq> hid p) (queue s)\<rparr>))"
proof -
  let ?s0 = "s\<lparr>queue := filter (\<lambda>x. hid x \<noteq> hid p) (queue s)\<rparr>"
  have c0: "consistent t ?s0" by (rule remove_consistent[OF assms(1)])
  have ok: "startOK s p c"
    using consistent_entry[OF assms(1,3)] assms(4) by (simp add: entryOK_def)
  then obtain tm where tm: "timers s c = Some tm" "start tm = Some (hid p)" "staff tm = None"
    by (auto simp: startOK_def)
  from ok obtain d0 d where d0: "captured s (hid p) = Some d0" and d: "findOne s c = Some d"
    and same: "timerStartTime d = timerStartTime d0"
    by (auto simp: startOK_def)
  have q0: "quiet ?s0 c"
    unfolding quiet_def
  proof
    fix x assume "x \<in> set (queue ?s0)"
    then have x: "x \<in> set (queue s)" "hid x \<noteq> hid p" by auto
    show "act x \<noteq> StaffCb c \<and> act x \<noteq> StartCb c"
      using consistent_entry[OF assms(1) x(1)] x(2) tm
      by (auto simp: entryOK_def startOK_def staffOK_def)
  qed
  let ?d = "d\<lparr>timerStartTime :=
                (if timerStartTime d0 = Some now then timerStartTime d else Some now),
              reminderCount := (if reminderCount d0 = 0 then reminderCount d else 0)\<rparr>"
  let ?tm = "tm\<lparr>repeat := Some (fresh s), staff := Some (Suc (fresh s))\<rparr>"
  have sv: "startSave c (hid p) now ?s0 = Some (save c ?d ?s0)"
    by (rule startSave_stored) (simp_all add: d0 d[unfolded findOne_def] findOne_def)
  have eq: "startCallback c (hid p) now ?s0 =
      (setTimeout (StaffCb c) STAFF_ALERT_TIME now
        (setInterval (ReminderCb c) REMINDER_INTERVAL now (save c ?d ?s0)))
      \<lparr>timers := (timers ?s0)(c \<mapsto> ?tm)\<rparr>"
    unfolding startCallback_def sv option.case
    using armTimers_held[of "save c ?d ?s0" c tm "hid p" now] tm
    by (simp add: save_fields)
  have "timerStartTime ?d = Some now" "staff ?tm = Some (Suc (fresh ?s0))"
    using same by simp_all
  then show ?thesis
    unfolding eq by (intro rearm_consistent c0 q0 assms(2))
qed

lemma fire_consistent:
  assumes "consistent t s" and "t \<le> now"
    and "case find (\<lambda>p. hid p = h) (queue s) of None \<Rightarrow> True | Some p \<Rightarrow> due p \<le> now"
  shows "consistent now (fire h now s)"
proof (cases "find (\<lambda>p. hid p = h) (queue s)")
  case None
  then show ?thesis using assms(1,2) by (simp add: fire_def consistent_mono)
next
  case (Some p)
  then have p: "p \<in> set (queue s)" "hid p = h"
    by (auto simp: find_Some_iff)
  have due: "due p \<le> now" using assms(3) Some by simp
  have ok: "entryOK s p" using assms(1) p(1) by (rule consistent_entry)
  show ?thesis
  proof (cases "act p")
    case (StartCb c)
    then have "every p = None" using ok by (simp add: entryOK_def startOK_def)
    then show ?thesis
      using startCallback_consistent[OF assms(1,2) p(1) StartCb] p(2) Some StartCb assms(2)
      by (simp add: fire_def runCallback_def consistent_mono)
  next
    case (ReminderCb c)
    have "consistent t (s\<lparr>queue := (case every p of
              None \<Rightarrow> filter (\<lambda>x. hid x \<noteq> h) (queue s)
            | Some d \<Rightarrow> map (\<lambda>x. if hid x = h then x\<lparr>due := now + d\<rparr> else x) (queue s))\<rparr>)"
      using remove_consistent[OF assms(1)] rearm_interval_consistent[OF assms(1) p]
      by (cases "every p") simp_all
    then show ?thesis
      using Some ReminderCb assms(2)
      by (simp add: fire_def runCallback_def sendReminder_consistent consistent_mono)
  next
    case (StaffCb c)
    then have "every p = None" using ok by (simp add: entryOK_def staffOK_def)
    then show ?thesis
      using sendStaffAlert_consistent[OF assms(1,2) p(1) StaffCb due] p(2) Some StaffCb
      by (simp add: fire_def runCallback_def)
  qed
qed

lemma step_consistent:
  assumes "consistent t s" and "timely cfg t (e # evs) s" and "whole (snd e)"
  shows "consistent (fst e) (step cfg e s) \<and> timely cfg (fst e) evs (step cfg e s)"
proof (cases e)
  case (Pair now ev)
  then have le: "t \<le> now" and rest: "timely cfg now evs (step cfg (now, ev) s)"
    using assms(2) by simp_all
  have "consistent now (step cfg (now, ev) s)"
  proof (cases ev)
    case (MessageCreate m)
    then show ?thesis
      using consistent_mono[OF messageCreate_consistent[OF assms(1)] le] by simp
  next
    case (InteractionCreate i)
    then show ?thesis
      using consistent_mono[OF interactionCreate_consistent[OF assms(1) le] le] by simp
  next
    case (ChannelDelete c)
    then show ?thesis
      using consistent_mono[OF channelDelete_consistent[OF assms(1)] le] by simp
  next
    case (Fire h)
    then show ?thesis
      using fire_consistent[OF assms(1) le, of h] assms(2) Pair by simp
  next
    case (FireStart h)
    then show ?thesis using assms(3) Pair by simp
  next
    case (ResumeStart h)
    then show ?thesis using assms(3) Pair by simp
  qed
  then show ?thesis using Pair rest by simp
qed

lemma exec_consistent:
  assumes "consistent t s" and "timely cfg t evs s" and "serial evs"
  shows "\<exists>t'. consistent t' (exec cfg evs s)"
  using assms
proof (induction evs arbitrary: t s)
  case Nil
  then show ?case by (auto simp: exec_def)
next
  case (Cons e evs)
  have w: "whole (snd e)" and r: "serial evs"
    using Cons.prems(3) by (simp_all add: serial_def)
  from step_consistent[OF Cons.prems(1,2) w]
  have "\<exists>t'. consistent t' (exec cfg evs (step cfg e s))"
    using Cons.IH r by blast
  then show ?case by (simp add: exec_def)
qed


lemma expired_alert_consistent:
  assumes "consistent t s" and "quiet s c" and "findOne s c = Some d"
    and "timerStartTime d = Some T" and "T + STAFF_ALERT_TIME \<le> t"
    and "c \<notin> fst ` set (alerts (sent s))"
  shows "consistent t (sendStaffAlert c s)"
proof -
  have al: "alerts (sent (sendStaffAlert c s)) = alerts (sent s) @ [(c, T)]"
    using assms(3,4) by (simp add: sendStaffAlert_def alerts_append alerts_single)
  have fl: "filter isAlert (sent (sendStaffAlert c s))
              = filter isAlert (sent s) @ [StaffAlert c (Some d)]"
    using assms(3) by (simp add: sendStaffAlert_def isAlert_def)
  have q: "queue (sendStaffAlert c s) = queue s" and f: "fresh (sendStaffAlert c s) = fresh s"
    and tm: "timers (sendStaffAlert c s) = timers s"
    and fo: "findOne (sendStaffAlert c s) = findOne s"
    and cp: "captured (sendStaffAlert c s) = captured s"
    by (simp_all add: sendStaffAlert_def findOne_def fun_eq_iff)
  have "entryOK (sendStaffAlert c s) x" if "x \<in> set (queue s)" for x
    using consistent_entry[OF assms(1) that] assms(2) that
    by (cases "act x") (auto simp: entryOK_def startOK_def staffOK_def tm fo al cp quiet_def)
  moreover have "(c, T) \<notin> set (alerts (sent s))"
    using assms(6) by force
  ultimately show ?thesis
    using assms(1,5) by (auto simp: consistent_def q f al fl)
qed

lemma sendReminder_fields:
  "queue (sendReminder c s) = queue s" "timers (sendReminder c s) = timers s"
  "fresh (sendReminder c s) = fresh s" "alerts (sent (sendReminder c s)) = alerts (sent s)"
  "c' \<noteq> c \<Longrightarrow> findOne (sendReminder c s) c' = findOne s c'"
  "map_option timerStartTime (findOne (sendReminder c s) c) = map_option timerStartTime (findOne s c)"
  by (auto simp: sendReminder_def Let_def prims alerts_append alerts_single split: option.splits)

lemma recoverTicket_consistent:
  assumes "consistent t s" and "quiet s c" and "findOne s c = Some d"
    and "c \<notin> fst ` set (alerts (sent s))"
  shows "consistent t (recoverTicket fetch t (c, d) s)"
proof (cases "timerStartTime d")
  case None
  then show ?thesis using assms(1) by (simp add: recoverTicket_def)
next
  case (Some T)
  consider "T = 0" | "T \<noteq> 0" "\<not> fetch c" | "T \<noteq> 0" "fetch c" "\<not> t - T < STAFF_ALERT_TIME"
    | "T \<noteq> 0" "fetch c" "t - T < STAFF_ALERT_TIME"
    by blast
  then show ?thesis
  proof cases
    case 1
    then show ?thesis using assms(1) Some by (simp add: recoverTicket_def)
  next
    case 2
    then show ?thesis
      using deleteOne_consistent[OF assms(1,2)] Some by (simp add: recoverTicket_def)
  next
    case 3
    then have "T + STAFF_ALERT_TIME \<le> t" by simp
    from expired_alert_consistent[OF assms(1,2,3) Some this assms(4)] 3 Some
    show ?thesis by (simp add: recoverTicket_def)
  next
    case 4
    let ?n = "REMINDER_INTERVAL - jsrem (t - T) REMINDER_INTERVAL"
    let ?s1 = "setInterval (ReminderCb c) REMINDER_INTERVAL t s"
    let ?s2 = "if ?n \<le> 1000 then sendReminder c ?s1 else setTimeout (ReminderCb c) ?n t ?s1"
    let ?tm = "\<lparr>start = None, repeat = Some (fresh s), staff = Some (fresh ?s2)\<rparr>"
    have c1: "consistent t ?s1" by (rule arm_reminder_consistent[OF assms(1)])
    have c2: "consistent t ?s2"
      using c1 by (simp add: sendReminder_consistent arm_reminder_consistent)
    have q2: "quiet ?s2 c"
      using assms(2) by (simp add: quiet_def sendReminder_fields prims)
    have "map_option timerStartTime (findOne ?s1 c) = Some (Some T)"
      using assms(3) Some by (simp add: prims)
    then have "map_option timerStartTime (findOne ?s2 c) = Some (Some T)"
      by (cases "?n \<le> 1000") (simp_all add: sendReminder_fields(6), simp add: prims)
    then obtain d2 where d2: "findOne ?s2 c = Some d2"
      "timerStartTime d2 = Some (t + (STAFF_ALERT_TIME - (t - T)) - STAFF_ALERT_TIME)"
      by auto
    have a2: "(c, t + (STAFF_ALERT_TIME - (t - T)) - STAFF_ALERT_TIME) \<notin> set (alerts (sent ?s2))"
      using assms(4) by (auto simp: sendReminder_fields prims image_iff)
    have t2: "timers (setTimeout (StaffCb c) (STAFF_ALERT_TIME - (t - T)) t ?s2) = timers s"
      by (simp add: sendReminder_fields prims)
    have eq: "recoverTicket fetch t (c, d) s =
        (setTimeout (StaffCb c) (STAFF_ALERT_TIME - (t - T)) t ?s2)
          \<lparr>timers := (timers (setTimeout (StaffCb c) (STAFF_ALERT_TIME - (t - T)) t ?s2))(c \<mapsto> ?tm)\<rparr>"
      using 4 Some by (simp add: recoverTicket_def Let_def)
    show ?thesis
      unfolding eq
      by (rule arm_staff_consistent[OF c2 q2 d2 a2]) simp
  qed
qed

lemma alerts_staff:
  "fst ` set (alerts (ms @ [StaffAlert c x])) \<subseteq> insert c (fst ` set (alerts ms))"
  by (cases x) (auto simp: alerts_append alerts_single split: option.splits)

lemma recoverTicket_frame:
  assumes "c' \<noteq> c"
  shows "findOne (recoverTicket fetch t (c, d) s) c' = findOne s c'"
    and "quiet s c' \<Longrightarrow> quiet (recoverTicket fetch t (c, d) s) c'"
    and "c' \<notin> fst ` set (alerts (sent s))
         \<Longrightarrow> c' \<notin> fst ` set (alerts (sent (recoverTicket fetch t (c, d) s)))"
proof -
  show "findOne (recoverTicket fetch t (c, d) s) c' = findOne s c'"
    using assms
    by (auto simp: recoverTicket_def Let_def prims sendReminder_def sendStaffAlert_def
        split: option.splits)
  show "quiet (recoverTicket fetch t (c, d) s) c'" if "quiet s c'"
    using assms that
    by (auto simp: recoverTicket_def Let_def prims sendReminder_def sendStaffAlert_def quiet_def
        split: option.splits)
  show "c' \<notin> fst ` set (alerts (sent (recoverTicket fetch t (c, d) s)))"
    if "c' \<notin> fst ` set (alerts (sent s))"
  proof -
    have "fst ` set (alerts (sent (recoverTicket fetch t (c, d) s)))
            \<subseteq> insert c (fst ` set (alerts (sent s)))"
      using alerts_staff[of "sent s" c "findOne s c"]
      by (auto simp: recoverTicket_def Let_def prims sendReminder_fields sendStaffAlert_def
          split: option.splits)
    then show ?thesis using that assms by blast
  qed
qed

lemma recover_fold_consistent:
  assumes "consistent t s" and "distinct (map fst es)"
    and "\<forall>e \<in> set es. findOne s (fst e) = Some (snd e) \<and> quiet s (fst e)
            \<and> fst e \<notin> fst ` set (alerts (sent s))"
  shows "consistent t (fold (recoverTicket fetch t) es s)"
  using assms
proof (induction es arbitrary: s)
  case Nil
  then show ?case by simp
next
  case (Cons e es)
  obtain c d where e: "e = (c, d)" by (cases e)
  have here: "findOne s c = Some d" "quiet s c" "c \<notin> fst ` set (alerts (sent s))"
    using Cons.prems(3) e by auto
  have c1: "consistent t (recoverTicket fetch t (c, d) s)"
    by (rule recoverTicket_consistent[OF Cons.prems(1) here(2,1,3)])
  have rest: "\<forall>x \<in> set es. findOne (recoverTicket fetch t (c, d) s) (fst x) = Some (snd x)
        \<and> quiet (recoverTicket fetch t (c, d) s) (fst x)
        \<and> fst x \<notin> fst ` set (alerts (sent (recoverTicket fetch t (c, d) s)))"
  proof
    fix x assume x: "x \<in> set es"
    then have ne: "fst x \<noteq> c" using Cons.prems(2) e by auto
    have old: "findOne s (fst x) = Some (snd x)" "quiet s (fst x)"
      "fst x \<notin> fst ` set (alerts (sent s))"
      using Cons.prems(3) x by auto
    show "findOne (recoverTicket fetch t (c, d) s) (fst x) = Some (snd x)
        \<and> quiet (recoverTicket fetch t (c, d) s) (fst x)
        \<and> fst x \<notin> fst ` set (alerts (sent (recoverTicket fetch t (c, d) s)))"
      using recoverTicket_frame[OF ne, where fetch = fetch and t = t and d = d and s = s] old
      by simp
  qed
  have "distinct (map fst es)" using Cons.prems(2) by simp
  from Cons.IH[OF c1 this rest] show ?case by (simp add: e)
qed

lemma clientready_consistent:
  assumes "distinct (map fst db)"
  shows "consistent t (clientready fetch t (boot db))"
proof -
  have "consistent t (boot db)"
    by (simp add: consistent_def boot_def alerts_def)
  moreover have "\<forall>e \<in> set db. findOne (boot db) (fst e) = Some (snd e) \<and> quiet (boot db) (fst e)
            \<and> fst e \<notin> fst ` set (alerts (sent (boot db)))"
    using assms by (auto simp: findOne_def boot_def quiet_def alerts_def)
  ultimately have "consistent t (fold (recoverTicket fetch t) db (boot db))"
    using assms by (intro recover_fold_consistent)
  then show ?thesis by (simp add: clientready_def boot_def)
qed

text \<open>
  A process start whose recovery finds a document with 24 hours or more elapsed, in a
  channel that exists, sends the alert for it and leaves the document as it was.
\<close>

lemma recoverTicket_expired:
  assumes "timerStartTime d = Some T" and "T \<noteq> 0" and "fetch c"
    and "STAFF_ALERT_TIME \<le> t - T"
  shows "recoverTicket fetch t (c, d) s = sendStaffAlert c s"
  using assms by (simp add: recoverTicket_def Let_def)

lemma recoverTicket_alerts:
  "set (alerts (sent s)) \<subseteq> set (alerts (sent (recoverTicket fetch t e s)))"
  by (cases e)
    (auto simp: recoverTicket_def Let_def prims sendReminder_fields sendStaffAlert_def
      alerts_append split: option.splits)

lemma recover_fold_alerts:
  "set (alerts (sent s)) \<subseteq> set (alerts (sent (fold (recoverTicket fetch t) es s)))"
proof (induction es arbitrary: s)
  case Nil
  then show ?case by simp
next
  case (Cons e es)
  show ?case
    using recoverTicket_alerts[of s fetch t e] Cons.IH[of "recoverTicket fetch t e s"]
    by auto
qed

lemma recover_fold_frame:
  assumes "c \<notin> fst ` set es"
  shows "findOne (fold (recoverTicket fetch t) es s) c = findOne s c"
  using assms
proof (induction es arbitrary: s)
  case Nil
  then show ?case by simp
next
  case (Cons e es)
  obtain c' d' where e: "e = (c', d')" by (cases e)
  have ne: "c \<noteq> c'" and rest: "c \<notin> fst ` set es"
    using Cons.prems e by auto
  show ?case
    using Cons.IH[OF rest, of "recoverTicket fetch t (c', d') s"]
      recoverTicket_frame(1)[OF ne, where fetch = fetch and t = t and d = d' and s = s]
    by (simp add: e)
qed

lemma recover_fold_expired:
  assumes "distinct (map fst es)" and "(c, d) \<in> set es" and "findOne s c = Some d"
    and "timerStartTime d = Some T" and "T \<noteq> 0" and "fetch c"
    and "STAFF_ALERT_TIME \<le> t - T"
  shows "(c, T) \<in> set (alerts (sent (fold (recoverTicket fetch t) es s)))
       \<and> findOne (fold (recoverTicket fetch t) es s) c = Some d"
  using assms(1,2,3)
proof (induction es arbitrary: s)
  case Nil
  then show ?case by simp
next
  case (Cons e es)
  obtain c' d' where e: "e = (c', d')" by (cases e)
  show ?case
  proof (cases "c' = c")
    case True
    then have d': "d' = d" and rest: "c \<notin> fst ` set es"
      using Cons.prems(1,2) e by (auto simp: image_iff)
    let ?s1 = "sendStaffAlert c s"
    have s1: "recoverTicket fetch t e s = ?s1"
      using recoverTicket_expired[where fetch = fetch and c = c, OF assms(4,5,6,7)]
      by (simp add: e True d')
    have "(c, T) \<in> set (alerts (sent ?s1))"
      using Cons.prems(3) assms(4) by (simp add: sendStaffAlert_def alerts_append alerts_single)
    then have "(c, T) \<in> set (alerts (sent (fold (recoverTicket fetch t) es ?s1)))"
      using recover_fold_alerts[of ?s1 fetch t es] by blast
    moreover have "findOne (fold (recoverTicket fetch t) es ?s1) c = Some d"
      using recover_fold_frame[OF rest, of fetch t ?s1] Cons.prems(3)
      by (simp add: sendStaffAlert_def findOne_def)
    ultimately show ?thesis by (simp add: s1)
  next
    case False
    then have ne: "c \<noteq> c'" by simp
    have "findOne (recoverTicket fetch t (c', d') s) c = Some d"
      using recoverTicket_frame(1)[OF ne, where fetch = fetch and t = t and d = d' and s = s]
        Cons.prems(3) by simp
    moreover have "distinct (map fst es)" "(c, d) \<in> set es"
      using Cons.prems(1,2) e False by auto
    ultimately show ?thesis
      using Cons.IH[of "recoverTicket fetch t (c', d') s"] by (simp add: e)
  qed
qed

lemma recoverTicket_distinct:
  assumes "distinct (map fst (tickets s))"
  shows "distinct (map fst (tickets (recoverTicket fetch t e s)))"
  using assms
  by (cases e)
    (auto simp: recoverTicket_def Let_def save_def deleteOne_def setTimeout_def setInterval_def
      sendReminder_def sendStaffAlert_def findOne_def distinct_update distinct_delete
      split: option.splits)

lemma recover_fold_distinct:
  assumes "distinct (map fst (tickets s))"
  shows "distinct (map fst (tickets (fold (recoverTicket fetch t) es s)))"
  using assms
proof (induction es arbitrary: s)
  case Nil
  then show ?case by simp
next
  case (Cons e es)
  show ?case
    using Cons.IH[OF recoverTicket_distinct[OF Cons.prems, of fetch t e]] by simp
qed

lemma clientready_expired:
  assumes "distinct (map fst db)" and "(c, d) \<in> set db"
    and "timerStartTime d = Some T" and "T \<noteq> 0" and "fetch c"
    and "STAFF_ALERT_TIME \<le> t - T"
  shows "(c, T) \<in> set (alerts (sent (clientready fetch t (boot db))))
       \<and> findOne (clientready fetch t (boot db)) c = Some d"
proof -
  have "findOne (boot db) c = Some d"
    using assms(1,2) by (simp add: findOne_def boot_def)
  from recover_fold_expired[where fetch = fetch and c = c, OF assms(1,2) this assms(3,4,5,6)]
  show ?thesis by (simp add: clientready_def boot_def)
qed

lemma clientready_distinct:
  assumes "distinct (map fst db)"
  shows "distinct (map fst (tickets (clientready fetch t (boot db))))"
  using recover_fold_distinct[of "boot db" fetch t db] assms
  by (simp add: clientready_def boot_def)

text \<open>
  Claim C2, amended to one process run in which the recovery, every handler and every
  timer callback runs to completion before the next event is handled. The process starts
  at time \<open>t\<close> on a collection with one document per channel and recovers; then
  messages, slash commands, channel deletions and timer firings follow in any timely
  order. In the alerts sent during the run, those of the recovery included, no channel
  and \<open>timerStartTime\<close> occurs twice, and every alert sent was rendered from a document
  with a \<open>timerStartTime\<close>.

  Across process starts nothing of this holds. For every document whose 24 hours had run
  out at time \<open>t\<close> and whose channel exists, the recovery sends the alert and leaves the
  document as it was, and a process that starts at any later time \<open>t'\<close> on the
  collection this recovery left sends the alert again, for the same \<open>timerStartTime\<close>.
\<close>

theorem staff_alert_once_per_run:
  assumes "distinct (map fst db)" and "serial evs"
    and "timely cfg t evs (clientready fetch t (boot db))"
  shows "distinct (alerts (sent (exec cfg evs (clientready fetch t (boot db)))))
       \<and> length (alerts (sent (exec cfg evs (clientready fetch t (boot db)))))
           = length (filter isAlert (sent (exec cfg evs (clientready fetch t (boot db)))))
       \<and> (\<forall>c d T. (c, d) \<in> set db \<and> timerStartTime d = Some T \<and> T \<noteq> 0 \<and> fetch c
              \<and> STAFF_ALERT_TIME \<le> t - T
            \<longrightarrow> (c, T) \<in> set (alerts (sent (clientready fetch t (boot db))))
              \<and> findOne (clientready fetch t (boot db)) c = Some d
              \<and> (\<forall>t' fetch'. t \<le> t' \<and> fetch' c
                    \<longrightarrow> (c, T) \<in> set (alerts (sent (clientready fetch' t'
                            (boot (tickets (clientready fetch t (boot db)))))))))"
proof -
  let ?R = "clientready fetch t (boot db)"
  from exec_consistent[OF clientready_consistent[OF assms(1)] assms(3,2)]
  obtain t1 where c: "consistent t1 (exec cfg evs ?R)" ..
  have run1: "distinct (alerts (sent (exec cfg evs ?R)))"
    using c by (simp add: consistent_def)
  have run2: "length (alerts (sent (exec cfg evs ?R)))
      = length (filter isAlert (sent (exec cfg evs ?R)))"
    using c by (simp add: consistent_def)
  have dist: "distinct (map fst (tickets ?R))"
    by (rule clientready_distinct[OF assms(1)])
  have again: "\<forall>c d T. (c, d) \<in> set db \<and> timerStartTime d = Some T \<and> T \<noteq> 0 \<and> fetch c
              \<and> STAFF_ALERT_TIME \<le> t - T
            \<longrightarrow> (c, T) \<in> set (alerts (sent ?R))
              \<and> findOne ?R c = Some d
              \<and> (\<forall>t' fetch'. t \<le> t' \<and> fetch' c
                    \<longrightarrow> (c, T) \<in> set (alerts (sent (clientready fetch' t'
                            (boot (tickets ?R))))))"
  proof (intro allI impI)
    fix c d T
    assume "(c, d) \<in> set db \<and> timerStartTime d = Some T \<and> T \<noteq> 0 \<and> fetch c
              \<and> STAFF_ALERT_TIME \<le> t - T"
    then have h: "(c, d) \<in> set db" "timerStartTime d = Some T" "T \<noteq> 0" "fetch c"
      "STAFF_ALERT_TIME \<le> t - T"
      by simp_all
    note first = clientready_expired[where fetch = fetch and c = c, OF assms(1) h]
    have f1: "(c, T) \<in> set (alerts (sent ?R))" by (rule conjunct1[OF first])
    have f2: "findOne ?R c = Some d" by (rule conjunct2[OF first])
    have "map_of (tickets ?R) c = Some d"
      using f2 by (simp only: findOne_def)
    then have mem: "(c, d) \<in> set (tickets ?R)" by (rule map_of_SomeD)
    have f3: "\<forall>t' fetch'. t \<le> t' \<and> fetch' c
        \<longrightarrow> (c, T) \<in> set (alerts (sent (clientready fetch' t' (boot (tickets ?R)))))"
    proof (intro allI impI)
      fix t' :: int and fetch' :: "chan \<Rightarrow> bool"
      assume "t \<le> t' \<and> fetch' c"
      then have le: "t \<le> t'" and ex: "fetch' c" by simp_all
      have "STAFF_ALERT_TIME \<le> t' - T" using h(5) le by simp
      from clientready_expired[where fetch = fetch' and c = c, OF dist mem h(2,3) ex this]
      show "(c, T) \<in> set (alerts (sent (clientready fetch' t' (boot (tickets ?R)))))"
        by (rule conjunct1)
    qed
    from f1 f2 f3
    show "(c, T) \<in> set (alerts (sent ?R)) \<and> findOne ?R c = Some d
        \<and> (\<forall>t' fetch'. t \<le> t' \<and> fetch' c
              \<longrightarrow> (c, T) \<in> set (alerts (sent (clientready fetch' t' (boot (tickets ?R))))))"
      by (intro conjI)
  qed
  from run1 run2 again show ?thesis by (intro conjI)
qed

text \<open>
  The run \<open>expiredRun\<close> of the process that starts on \<open>expiredDb\<close>: two alerts, for
  two different start times, the first sent by the recovery; and the start an hour
  later, which sends the first again.
\<close>

theorem staff_alert_once_per_run_witness:
  "distinct (map fst expiredDb)
   \<and> serial expiredRun
   \<and> timely cfg0 90001000 expiredRun (clientready (\<lambda>c. True) 90001000 (boot expiredDb))
   \<and> (''c1'', \<lparr>creatorId = ''u1'', timerStartTime = Some 1000, reminderCount = 3\<rparr>)
         \<in> set expiredDb
   \<and> STAFF_ALERT_TIME \<le> 90001000 - 1000
   \<and> (90001000::int) \<le> 93601000
   \<and> alerts (sent (exec cfg0 expiredRun (clientready (\<lambda>c. True) 90001000 (boot expiredDb))))
       = [(''c1'', 1000), (''c1'', 90100000)]
   \<and> distinct (alerts (sent (exec cfg0 expiredRun
         (clientready (\<lambda>c. True) 90001000 (boot expiredDb)))))
   \<and> length (alerts (sent (exec cfg0 expiredRun
         (clientready (\<lambda>c. True) 90001000 (boot expiredDb)))))
       = length (filter isAlert (sent (exec cfg0 expiredRun
           (clientready (\<lambda>c. True) 90001000 (boot expiredDb)))))
   \<and> (''c1'', 1000) \<in> set (alerts (sent (clientready (\<lambda>c. True) 90001000 (boot expiredDb))))
   \<and> findOne (clientready (\<lambda>c. True) 90001000 (boot expiredDb)) ''c1''
       = Some \<lparr>creatorId = ''u1'', timerStartTime = Some 1000, reminderCount = 3\<rparr>
   \<and> (''c1'', 1000) \<in> set (alerts (sent (clientready (\<lambda>c. True) 93601000
         (boot (tickets (clientready (\<lambda>c. True) 90001000 (boot expiredDb)))))))"
proof -
  let ?d = "\<lparr>creatorId = ''u1'', timerStartTime = Some 1000, reminderCount = 3\<rparr>"
  let ?R = "clientready (\<lambda>c. True) 90001000 (boot expiredDb)"
  have a: "distinct (map fst expiredDb)" by (simp add: expiredDb_def)
  have s: "serial expiredRun" by (simp add: serial_def expiredRun_def)
  have b: "timely cfg0 90001000 expiredRun ?R"
    by code_simp
  have m: "(''c1'', ?d) \<in> set expiredDb" by (simp add: expiredDb_def)
  have e: "STAFF_ALERT_TIME \<le> 90001000 - 1000" by (simp add: STAFF_ALERT_TIME_def)
  have r: "alerts (sent (exec cfg0 expiredRun ?R)) = [(''c1'', 1000), (''c1'', 90100000)]"
    by code_simp
  note th = staff_alert_once_per_run[OF a s b]
  have run1: "distinct (alerts (sent (exec cfg0 expiredRun ?R)))"
    by (rule conjunct1[OF th])
  have run2: "length (alerts (sent (exec cfg0 expiredRun ?R)))
       = length (filter isAlert (sent (exec cfg0 expiredRun ?R)))"
    by (rule conjunct1[OF conjunct2[OF th]])
  have pre: "(''c1'', ?d) \<in> set expiredDb \<and> timerStartTime ?d = Some 1000 \<and> (1000::int) \<noteq> 0
      \<and> True \<and> STAFF_ALERT_TIME \<le> 90001000 - 1000"
    using m e by simp
  note first = conjunct2[OF conjunct2[OF th], rule_format, of "''c1''" ?d 1000, OF pre]
  have f1: "(''c1'', 1000) \<in> set (alerts (sent ?R))" by (rule conjunct1[OF first])
  have f2: "findOne ?R ''c1'' = Some ?d" by (rule conjunct1[OF conjunct2[OF first]])
  have f3: "(''c1'', 1000) \<in> set (alerts (sent (clientready (\<lambda>c. True) 93601000
       (boot (tickets ?R)))))"
    using conjunct2[OF conjunct2[OF first], rule_format, of 93601000 "\<lambda>c. True"] by simp
  have le: "(90001000::int) \<le> 93601000" by simp
  from a s b m e le r run1 run2 f1 f2 f3 show ?thesis by (intro conjI)
qed

subsection \<open>Runs without a one-shot reminder\<close>

text \<open>
  The remaining lemmas are about runs in which no one-shot reminder of a recovery is
  pending (the invariant \<open>tidy\<close>) and every callback runs to completion: there every
  pending timer of a channel is held by the channel's \<open>timer\<close> object, so
  \<open>clearAllTimers\<close> leaves none of them.
\<close>

lemma set_update_subset: "set (AList.update k v al) \<subseteq> insert (k, v) (set al)"
  by (induction al) auto

lemma set_delete_subset: "set (AList.delete k al) \<subseteq> set al"
  by (auto simp: AList.delete_eq)

lemma tidy_entry:
  "tidy s \<Longrightarrow> p \<in> set (queue s) \<Longrightarrow> act p = ReminderCb c \<Longrightarrow> reminderOK s p c"
  by (fastforce simp: tidy_def)

lemma tidy_doc: "tidy s \<Longrightarrow> findOne s c = Some d \<Longrightarrow> docOK d"
  by (auto simp: tidy_def findOne_def dest!: map_of_SomeD)

lemma tidyI:
  assumes "\<And>p c. p \<in> set (queue s) \<Longrightarrow> act p = ReminderCb c \<Longrightarrow> reminderOK s p c"
    and "\<And>e. e \<in> set (tickets s) \<Longrightarrow> docOK (snd e)"
  shows "tidy s"
  using assms by (auto simp: tidy_def split: callback.splits)

lemma no_record_calm:
  "tidy s \<Longrightarrow> findOne s c = None \<Longrightarrow> calm s c"
  by (auto simp: calm_def reminderOK_def dest!: tidy_entry)

lemma tidy_sent: "tidy s \<Longrightarrow> tidy (s\<lparr>sent := x\<rparr>)"
  by (auto simp: tidy_def reminderOK_def findOne_def split: callback.splits)

lemma tidy_captured: "tidy s \<Longrightarrow> tidy (s\<lparr>captured := x\<rparr>)"
  by (auto simp: tidy_def reminderOK_def findOne_def split: callback.splits)

lemma tidy_reply: "tidy s \<Longrightarrow> tidy (reply r s)"
  by (simp add: reply_def tidy_sent)

lemma tidy_sendStaffAlert: "tidy s \<Longrightarrow> tidy (sendStaffAlert c s)"
  by (simp add: sendStaffAlert_def tidy_sent)

lemma tidy_save:
  assumes "tidy s" and "docOK d" and "timerStartTime d \<noteq> None \<or> calm s c"
  shows "tidy (save c d s)"
proof (rule tidyI)
  fix p c' assume p: "p \<in> set (queue (save c d s))" "act p = ReminderCb c'"
  then have "reminderOK s p c'" using assms(1) by (simp add: save_def tidy_entry)
  then show "reminderOK (save c d s) p c'"
    using assms(3) p by (auto simp: reminderOK_def prims calm_def)
next
  fix e assume "e \<in> set (tickets (save c d s))"
  then have "e = (c, d) \<or> e \<in> set (tickets s)"
    using set_update_subset[of c d "tickets s"] by (auto simp: save_def)
  then show "docOK (snd e)" using assms(1,2) by (auto simp: tidy_def)
qed

lemma tidy_deleteOne:
  assumes "tidy s" and "calm s c"
  shows "tidy (deleteOne c s)"
proof (rule tidyI)
  fix p c' assume p: "p \<in> set (queue (deleteOne c s))" "act p = ReminderCb c'"
  then have "reminderOK s p c'" using assms(1) by (simp add: deleteOne_def tidy_entry)
  then show "reminderOK (deleteOne c s) p c'"
    using assms(2) p by (auto simp: reminderOK_def prims calm_def)
next
  fix e assume "e \<in> set (tickets (deleteOne c s))"
  then have "e \<in> set (tickets s)"
    using set_delete_subset[of c "tickets s"] by (auto simp: deleteOne_def)
  then show "docOK (snd e)" using assms(1) by (auto simp: tidy_def)
qed

lemma clear_calm:
  assumes "tidy s"
  shows "calm (clearAllTimers c s) c"
  unfolding calm_def
proof
  fix p assume "p \<in> set (queue (clearAllTimers c s))"
  then have p: "p \<in> set (queue s)" "hid p \<notin> registered s c"
    by (simp_all add: queue_clearAllTimers)
  show "act p \<noteq> ReminderCb c"
  proof
    assume "act p = ReminderCb c"
    then have "reminderOK s p c" using assms p(1) by (rule tidy_entry[rotated 2])
    then show False using p(2) by (auto simp: reminderOK_def registered_def)
  qed
qed

lemma tidy_clear:
  assumes "tidy s"
  shows "tidy (clearAllTimers c s)"
proof (rule tidyI)
  fix p c' assume p: "p \<in> set (queue (clearAllTimers c s))" "act p = ReminderCb c'"
  then have ok: "reminderOK s p c'"
    using assms by (simp add: queue_clearAllTimers tidy_entry)
  have "c' \<noteq> c" using clear_calm[OF assms, of c] p by (auto simp: calm_def)
  then show "reminderOK (clearAllTimers c s) p c'"
    using ok by (simp add: reminderOK_def clearAllTimers_fields)
next
  fix e assume "e \<in> set (tickets (clearAllTimers c s))"
  then show "docOK (snd e)" using assms by (simp add: clearAllTimers_fields tidy_def)
qed


lemma no_timer_calm:
  "tidy s \<Longrightarrow> findOne s c = Some d \<Longrightarrow> timerStartTime d = None \<Longrightarrow> calm s c"
  by (auto simp: calm_def reminderOK_def dest!: tidy_entry)

lemma tidy_queue:
  assumes "tidy s"
    and "\<And>p. p \<in> set q \<Longrightarrow> \<exists>p' \<in> set (queue s). hid p' = hid p \<and> act p' = act p"
  shows "tidy (s\<lparr>queue := q\<rparr>)"
proof (rule tidyI)
  fix p c assume p: "p \<in> set (queue (s\<lparr>queue := q\<rparr>))" "act p = ReminderCb c"
  then obtain p' where p': "p' \<in> set (queue s)" "hid p' = hid p" "act p' = act p"
    using assms(2)[of p] by auto
  then have "reminderOK s p' c" using assms(1) p(2) by (simp add: tidy_entry)
  then show "reminderOK (s\<lparr>queue := q\<rparr>) p c"
    using p'(2) by (simp add: reminderOK_def findOne_def)
next
  fix e assume "e \<in> set (tickets (s\<lparr>queue := q\<rparr>))"
  then show "docOK (snd e)" using assms(1) by (simp add: tidy_def)
qed

lemma calm_prims:
  "calm (save c' d s) c = calm s c"
  "calm (reply r s) c = calm s c"
  by (auto simp: calm_def prims)

lemma tidy_arm_start:
  assumes "tidy s" and "calm s c"
  shows "tidy ((setTimeout (StartCb c) d now s)
                 \<lparr>timers := (timers (setTimeout (StartCb c) d now s))(c \<mapsto> tm)\<rparr>)"
    (is "tidy ?s'")
proof (rule tidyI)
  fix p c' assume p: "p \<in> set (queue ?s')" "act p = ReminderCb c'"
  then have q: "p \<in> set (queue s)" by (auto simp: setTimeout_def)
  then have "reminderOK s p c'" using assms(1) p(2) by (simp add: tidy_entry)
  moreover have "c' \<noteq> c" using assms(2) q p(2) by (auto simp: calm_def)
  ultimately show "reminderOK ?s' p c'"
    by (simp add: reminderOK_def prims)
next
  fix e assume "e \<in> set (tickets ?s')"
  then show "docOK (snd e)" using assms(1) by (simp add: tidy_def setTimeout_def)
qed

lemma tidy_rearm:
  assumes "tidy s" and "calm s c" and "repeat tm = Some (fresh s)"
    and "timerStartTime d \<noteq> None"
  shows "tidy
     ((setTimeout (StaffCb c) STAFF_ALERT_TIME now
        (setInterval (ReminderCb c) REMINDER_INTERVAL now (save c d s)))
      \<lparr>timers := (timers s)(c \<mapsto> tm)\<rparr>)"
    (is "tidy ?s'")
proof (rule tidyI)
  fix p c' assume p: "p \<in> set (queue ?s')" "act p = ReminderCb c'"
  then consider "p \<in> set (queue s)"
    | "p = \<lparr>hid = fresh s, due = now + REMINDER_INTERVAL, every = Some REMINDER_INTERVAL,
            act = ReminderCb c\<rparr>"
    by (auto simp: prims)
  then show "reminderOK ?s' p c'"
  proof cases
    case 1
    then have "reminderOK s p c'" using assms(1) p(2) by (simp add: tidy_entry)
    moreover have "c' \<noteq> c" using assms(2) 1 p(2) by (auto simp: calm_def)
    ultimately show ?thesis by (simp add: reminderOK_def prims)
  next
    case 2
    then show ?thesis using p(2) assms(3,4) by (simp add: reminderOK_def prims)
  qed
next
  fix e assume "e \<in> set (tickets ?s')"
  then have "e = (c, d) \<or> e \<in> set (tickets s)"
    using set_update_subset[of c _ "tickets s"] by (auto simp: prims)
  then show "docOK (snd e)" using assms(1,4) by (auto simp: tidy_def docOK_def)
qed

lemma tidy_stop:
  assumes "tidy s"
  shows "tidy (save c (d\<lparr>timerStartTime := None, reminderCount := 0\<rparr>) (clearAllTimers c s))"
  by (intro tidy_save tidy_clear assms disjI2 clear_calm) (simp add: docOK_def)

lemma tidy_startTimers:
  assumes "tidy s"
  shows "tidy (startTimers c now s)"
proof (cases "findOne s c")
  case None
  then show ?thesis using assms by (simp add: startTimers_def)
next
  case (Some d)
  show ?thesis
    using tidy_captured[OF tidy_arm_start[OF tidy_clear[OF assms] clear_calm[OF assms], of c]]
    by (simp add: startTimers_def Some Let_def clearAllTimers_fields)
qed

lemma tidy_messageCreate:
  assumes "tidy s"
  shows "tidy (messageCreate cfg m now s)"
proof (cases "findOne s (channelId m)")
  case None
  have "tidy (save (channelId m) \<lparr>creatorId = u, timerStartTime = None, reminderCount = 0\<rparr> s)"
    for u
    by (intro tidy_save assms disjI2 no_record_calm None) (simp add: docOK_def)
  then show ?thesis
    using assms None by (auto simp: messageCreate_def split: option.splits)
next
  case (Some d)
  then show ?thesis
    using assms
    by (auto simp: messageCreate_def tidy_stop tidy_startTimers tidy_clear)
qed

lemma tidy_channelDelete:
  assumes "tidy s"
  shows "tidy (channelDelete c s)"
  using assms
  by (auto simp: channelDelete_def intro!: tidy_deleteOne tidy_clear clear_calm
      split: option.splits)

lemma tidy_restart:
  assumes "tidy s"
  shows "tidy (timerCommand c ''restart'' now s)"
proof (cases "findOne s c")
  case None
  then show ?thesis using assms by (simp add: timerCommand_def tidy_reply)
next
  case (Some d)
  let ?tm = "\<lparr>start = None, repeat = Some (fresh s), staff = Some (Suc (fresh s))\<rparr>"
  let ?s1 = "clearAllTimers c s"
  have eq: "timerCommand c ''restart'' now s = reply TimerRestarted
     ((setTimeout (StaffCb c) STAFF_ALERT_TIME now
        (setInterval (ReminderCb c) REMINDER_INTERVAL now
          (save c (d\<lparr>timerStartTime := Some now, reminderCount := 0\<rparr>) ?s1)))
      \<lparr>timers := (timers ?s1)(c \<mapsto> ?tm)\<rparr>)"
    by (simp add: timerCommand_def Some Let_def save_def setInterval_def setTimeout_def
        reply_def clearAllTimers_fields)
  have "repeat ?tm = Some (fresh ?s1)"
    "timerStartTime (d\<lparr>timerStartTime := Some now, reminderCount := 0\<rparr>) \<noteq> None"
    by (simp_all add: clearAllTimers_fields)
  then show ?thesis
    unfolding eq by (intro tidy_reply tidy_rearm tidy_clear clear_calm assms)
qed

lemma tidy_timerCommand:
  assumes "tidy s"
  shows "tidy (timerCommand c a now s)"
proof -
  consider "a = ''stop''" | "a = ''restart''" | "a \<noteq> ''stop''" "a \<noteq> ''restart''"
    by blast
  then show ?thesis
  proof cases
    case 1
    then show ?thesis
      using assms
      by (auto simp: timerCommand_def intro!: tidy_reply tidy_stop split: option.splits)
  next
    case 2
    then show ?thesis using tidy_restart[OF assms] by simp
  next
    case 3
    then show ?thesis
      using assms
      by (auto simp: timerCommand_def intro!: tidy_reply split: option.splits prod.splits)
  qed
qed

lemma tidy_creatorCommand:
  assumes "tidy s"
  shows "tidy (creatorCommand c a u s)"
proof (cases "findOne s c")
  case None
  have "tidy (save c \<lparr>creatorId = v, timerStartTime = None, reminderCount = 0\<rparr> s)" for v
    by (intro tidy_save assms disjI2 no_record_calm None) (simp add: docOK_def)
  then show ?thesis
    using assms None by (auto simp: creatorCommand_def intro!: tidy_reply split: option.splits)
next
  case (Some d)
  have ok: "docOK (d\<lparr>creatorId := v\<rparr>)" for v
    using tidy_doc[OF assms Some] by (simp add: docOK_def)
  have "timerStartTime (d\<lparr>creatorId := v\<rparr>) \<noteq> None \<or> calm s c" for v
    using no_timer_calm[OF assms Some] by auto
  then have "tidy (save c (d\<lparr>creatorId := v\<rparr>) s)" for v
    by (intro tidy_save assms ok)
  then show ?thesis
    using assms Some by (auto simp: creatorCommand_def intro!: tidy_reply split: option.splits)
qed

lemma tidy_interactionCreate:
  assumes "tidy s"
  shows "tidy (interactionCreate cfg i now s)"
  using assms
  by (auto simp: interactionCreate_def tidy_timerCommand tidy_creatorCommand tidy_reply
      split: option.splits)

lemma tidy_sendReminder:
  assumes "tidy s" and "p \<in> set (queue s)" and "act p = ReminderCb c"
    and "\<And>x. x \<in> set q \<Longrightarrow> \<exists>x' \<in> set (queue s). hid x' = hid x \<and> act x' = act x"
  shows "tidy (sendReminder c (s\<lparr>queue := q\<rparr>))"
proof -
  have "reminderOK s p c" using assms(1-3) by (rule tidy_entry)
  then obtain d where d: "findOne s c = Some d" "timerStartTime d \<noteq> None"
    by (auto simp: reminderOK_def split: option.splits)
  have t: "tidy (s\<lparr>queue := q\<rparr>)" by (rule tidy_queue[OF assms(1,4)])
  have "tidy (save c (d\<lparr>reminderCount := reminderCount d + 1\<rparr>) (s\<lparr>queue := q\<rparr>))"
    using d(2) by (intro tidy_save t) (simp_all add: docOK_def)
  then show ?thesis
    using d(1) by (simp add: sendReminder_def findOne_def Let_def tidy_sent)
qed

lemma tidy_startCallback:
  assumes "tidy s" and "consistent t s" and "p \<in> set (queue s)" and "act p = StartCb c"
  shows "tidy (startCallback c (hid p) now (s\<lparr>queue := filter (\<lambda>x. hid x \<noteq> hid p) (queue s)\<rparr>))"
proof -
  let ?s0 = "s\<lparr>queue := filter (\<lambda>x. hid x \<noteq> hid p) (queue s)\<rparr>"
  have t0: "tidy ?s0" by (rule tidy_queue[OF assms(1)]) auto
  have ok: "startOK s p c"
    using consistent_entry[OF assms(2,3)] assms(4) by (simp add: entryOK_def)
  then obtain tm where tm: "timers s c = Some tm" "start tm = Some (hid p)" "repeat tm = None"
    by (auto simp: startOK_def)
  have c0: "calm ?s0 c"
    unfolding calm_def
  proof
    fix x assume "x \<in> set (queue ?s0)"
    then have x: "x \<in> set (queue s)" by simp
    show "act x \<noteq> ReminderCb c"
    proof
      assume "act x = ReminderCb c"
      then have "reminderOK s x c" using assms(1) x by (rule tidy_entry[rotated 2])
      then show False using tm by (simp add: reminderOK_def)
    qed
  qed
  from ok obtain d0 d where d0: "captured s (hid p) = Some d0" and d: "findOne s c = Some d"
    and same: "timerStartTime d = timerStartTime d0"
    by (auto simp: startOK_def)
  let ?d = "d\<lparr>timerStartTime :=
                (if timerStartTime d0 = Some now then timerStartTime d else Some now),
              reminderCount := (if reminderCount d0 = 0 then reminderCount d else 0)\<rparr>"
  let ?tm = "tm\<lparr>repeat := Some (fresh s), staff := Some (Suc (fresh s))\<rparr>"
  have sv: "startSave c (hid p) now ?s0 = Some (save c ?d ?s0)"
    by (rule startSave_stored) (simp_all add: d0 d[unfolded findOne_def] findOne_def)
  have eq: "startCallback c (hid p) now ?s0 =
      (setTimeout (StaffCb c) STAFF_ALERT_TIME now
        (setInterval (ReminderCb c) REMINDER_INTERVAL now (save c ?d ?s0)))
      \<lparr>timers := (timers ?s0)(c \<mapsto> ?tm)\<rparr>"
    unfolding startCallback_def sv option.case
    using armTimers_held[of "save c ?d ?s0" c tm "hid p" now] tm
    by (simp add: save_fields)
  have "repeat ?tm = Some (fresh ?s0)" "timerStartTime ?d \<noteq> None"
    using same by simp_all
  then show ?thesis
    unfolding eq by (intro tidy_rearm t0 c0)
qed

lemma tidy_fire:
  assumes "tidy s" and "consistent t s"
  shows "tidy (fire h now s)"
proof (cases "find (\<lambda>p. hid p = h) (queue s)")
  case None
  then show ?thesis using assms(1) by (simp add: fire_def)
next
  case (Some p)
  then have p: "p \<in> set (queue s)" "hid p = h"
    by (auto simp: find_Some_iff)
  let ?q = "case every p of
              None \<Rightarrow> filter (\<lambda>x. hid x \<noteq> h) (queue s)
            | Some d \<Rightarrow> map (\<lambda>x. if hid x = h then x\<lparr>due := now + d\<rparr> else x) (queue s)"
  have q: "\<exists>x' \<in> set (queue s). hid x' = hid x \<and> act x' = act x" if "x \<in> set ?q" for x
    using that by (cases "every p") (auto split: if_splits)
  have ok: "entryOK s p" using assms(2) p(1) by (rule consistent_entry)
  show ?thesis
  proof (cases "act p")
    case (StartCb c)
    then have "every p = None" using ok by (simp add: entryOK_def startOK_def)
    then show ?thesis
      using tidy_startCallback[OF assms p(1) StartCb] p(2) Some StartCb
      by (simp add: fire_def runCallback_def)
  next
    case (ReminderCb c)
    show ?thesis
      using tidy_sendReminder[OF assms(1) p(1) ReminderCb q] Some ReminderCb
      by (simp add: fire_def runCallback_def)
  next
    case (StaffCb c)
    have "tidy (s\<lparr>queue := ?q\<rparr>)" by (rule tidy_queue[OF assms(1) q])
    then show ?thesis
      using Some StaffCb by (simp add: fire_def runCallback_def tidy_sendStaffAlert)
  qed
qed

lemma tidy_step:
  assumes "tidy s" and "consistent t s" and "whole (snd e)"
  shows "tidy (step cfg e s)"
proof (cases e)
  case (Pair now ev)
  then show ?thesis
    using assms
    by (cases ev)
      (simp_all add: tidy_messageCreate tidy_interactionCreate tidy_channelDelete tidy_fire)
qed

lemma tidy_exec:
  assumes "tidy s" and "consistent t s" and "timely cfg t evs s" and "serial evs"
  shows "tidy (exec cfg evs s)"
  using assms
proof (induction evs arbitrary: t s)
  case Nil
  then show ?case by (simp add: exec_def)
next
  case (Cons e evs)
  have w: "whole (snd e)" and r: "serial evs"
    using Cons.prems(4) by (simp_all add: serial_def)
  have "tidy (step cfg e s)" by (rule tidy_step[OF Cons.prems(1,2) w])
  moreover note step_consistent[OF Cons.prems(2,3) w]
  ultimately have "tidy (exec cfg evs (step cfg e s))"
    using Cons.IH r by blast
  then show ?case by (simp add: exec_def)
qed

lemma boot_consistent: "consistent t (boot db)"
  by (simp add: consistent_def boot_def alerts_def)

lemma boot_tidy: "\<forall>e \<in> set db. docOK (snd e) \<Longrightarrow> tidy (boot db)"
  by (simp add: tidy_def boot_def)

lemma clientready_idle:
  assumes "\<forall>e \<in> set db. \<not> truthy (timerStartTime (snd e))"
  shows "fold (recoverTicket fetch now) db s = s"
  using assms
  by (induction db arbitrary: s)
    (auto simp: recoverTicket_def truthy_def split: option.splits)

text \<open>
  In a run of a process that found no running timer when it started (so that recovery
  armed nothing), with every callback run to completion, a document with a positive
  \<open>reminderCount\<close> has a \<open>timerStartTime\<close> after every step.
\<close>

lemma count_needs_timer:
  assumes "\<forall>e \<in> set db. \<not> truthy (timerStartTime (snd e)) \<and> docOK (snd e)"
    and "timely cfg t evs (clientready fetch t (boot db))" and "serial evs"
    and "findOne (exec cfg evs (clientready fetch t (boot db))) c = Some d"
    and "0 < reminderCount d"
  shows "timerStartTime d \<noteq> None"
proof -
  have eq: "clientready fetch t (boot db) = boot db"
    using clientready_idle[of db fetch t "boot db"] assms(1)
    by (simp add: clientready_def boot_def)
  have "tidy (exec cfg evs (boot db))"
    using assms(1,2,3) by (intro tidy_exec[OF boot_tidy boot_consistent]) (simp_all add: eq)
  then have "docOK d" using assms(4) by (simp add: eq tidy_doc)
  then show ?thesis using assms(5) by (simp add: docOK_def)
qed

text \<open>The run \<open>firstReminderRun\<close> on the idle ticket.\<close>

lemma count_needs_timer_example:
  "timely cfg0 0 firstReminderRun (clientready (\<lambda>c. True) 0 (boot idleDb))
   \<and> serial firstReminderRun
   \<and> findOne (exec cfg0 firstReminderRun (clientready (\<lambda>c. True) 0 (boot idleDb))) ''c1''
       = Some \<lparr>creatorId = ''u1'', timerStartTime = Some 601000, reminderCount = 1\<rparr>
   \<and> timerStartTime \<lparr>creatorId = ''u1'', timerStartTime = Some 601000, reminderCount = 1\<rparr> \<noteq> None"
proof -
  let ?d = "\<lparr>creatorId = ''u1'', timerStartTime = Some 601000, reminderCount = 1\<rparr>"
  have a: "\<forall>e \<in> set idleDb. \<not> truthy (timerStartTime (snd e)) \<and> docOK (snd e)"
    by (simp add: idleDb_def truthy_def docOK_def)
  have b: "timely cfg0 0 firstReminderRun (clientready (\<lambda>c. True) 0 (boot idleDb))"
    by code_simp
  have c: "findOne (exec cfg0 firstReminderRun (clientready (\<lambda>c. True) 0 (boot idleDb))) ''c1''
             = Some ?d"
    by code_simp
  have d: "0 < reminderCount ?d" by simp
  have e: "serial firstReminderRun" by (simp add: serial_def firstReminderRun_def)
  show ?thesis
    using b c e count_needs_timer[OF a b e c d] by simp
qed

lemma registered_entry:
  assumes "consistent t s" and "tidy s" and "p \<in> set (queue s)" and "chanOf (act p) = c"
  shows "hid p \<in> registered s c"
proof (cases "act p")
  case (StartCb c')
  then show ?thesis
    using entry_registered[OF assms(1,3)] assms(4) by (simp add: chanOf_def)
next
  case (ReminderCb c')
  then have "reminderOK s p c" using assms(2,3,4) by (simp add: chanOf_def tidy_entry)
  then show ?thesis by (auto simp: reminderOK_def registered_def)
next
  case (StaffCb c')
  then show ?thesis
    using entry_registered[OF assms(1,3)] assms(4) by (simp add: chanOf_def)
qed

text \<open>After \<open>clearAllTimers\<close> no timer of the channel is pending, if no one-shot reminder
  of a recovery was.\<close>

lemma clear_all_handles:
  assumes "consistent t s" and "tidy s" and "p \<in> set (queue (clearAllTimers c s))"
  shows "chanOf (act p) \<noteq> c"
  using registered_entry[OF assms(1,2), of p c] assms(3)
  by (auto simp: queue_clearAllTimers)

lemma staff_step:
  assumes "consistent t s" and "tidy s" and "staffIn cfg c m" and "findOne s c = Some d"
  shows "onlyStart c now (messageCreate cfg m now s)"
    and "tickets (messageCreate cfg m now s) = tickets s"
    and "sent (messageCreate cfg m now s) = sent s"
proof -
  have g: "guild m" "parentId m = Some (TICKET_CATEGORY_ID cfg)"
    "\<not> (authorBot m \<and> authorId m \<noteq> TICKET_TOOL_BOT_ID cfg)" "isStaff cfg (memberRoles m)"
    and c: "channelId m = c"
    using assms(3) by (auto simp: staffIn_def)
  note eff = staff_message_effect[OF g(1,2,3) _ g(4) refl, of s d now, unfolded c, OF assms(4)]
  show "tickets (messageCreate cfg m now s) = tickets s"
    and "sent (messageCreate cfg m now s) = sent s"
    using eff by simp_all
  have "chanOf (act p) \<noteq> c" if "p \<in> set (queue s)" "hid p \<notin> registered s c" for p
    using registered_entry[OF assms(1,2) that(1)] that(2) by blast
  then show "onlyStart c now (messageCreate cfg m now s)"
    using eff by (auto simp: onlyStart_def chanOf_def)
qed

lemma startCallback_other:
  assumes "onlyStart c lst s" and "c' \<noteq> c"
  shows "onlyStart c lst (startCallback c' h now s)"
    and "findOne (startCallback c' h now s) c = findOne s c"
    and "sent (startCallback c' h now s) = sent s"
proof -
  show "findOne (startCallback c' h now s) c = findOne s c"
    using assms(2) by (cases "captured s h"; cases "findOne s c'"; cases "timers s c'")
      (simp_all add: startCallback_def startSave_def armTimers_def Let_def prims)
  show "sent (startCallback c' h now s) = sent s"
    by (cases "captured s h"; cases "findOne s c'"; cases "timers s c'")
      (simp_all add: startCallback_def startSave_def armTimers_def Let_def prims)
  have q: "set (queue (startCallback c' h now s)) \<subseteq> set (queue s)
      \<union> {\<lparr>hid = fresh s, due = now + REMINDER_INTERVAL, every = Some REMINDER_INTERVAL,
            act = ReminderCb c'\<rparr>,
          \<lparr>hid = Suc (fresh s), due = now + STAFF_ALERT_TIME, every = None, act = StaffCb c'\<rparr>}"
    by (cases "captured s h"; cases "findOne s c'"; cases "timers s c'")
      (simp_all add: startCallback_def startSave_def armTimers_def Let_def prims subset_iff)
  show "onlyStart c lst (startCallback c' h now s)"
    unfolding onlyStart_def
  proof
    fix p assume "p \<in> set (queue (startCallback c' h now s))"
    then consider "p \<in> set (queue s)" | "act p = ReminderCb c'" | "act p = StaffCb c'"
      using q by auto
    then show "chanOf (act p) \<noteq> c \<or> act p = StartCb c \<and> due p = lst + START_DELAY"
      using assms by cases (auto simp: onlyStart_def chanOf_def)
  qed
qed

lemma sendReminder_other:
  assumes "onlyStart c lst s" and "c' \<noteq> c"
  shows "onlyStart c lst (sendReminder c' s)"
    and "findOne (sendReminder c' s) c = findOne s c"
    and "remindersFor c (sent (sendReminder c' s)) = remindersFor c (sent s)"
  using assms
  by (cases "findOne s c'"; simp add: sendReminder_def Let_def prims onlyStart_def
      remindersFor_def)+

lemma sendStaffAlert_other:
  assumes "onlyStart c lst s"
  shows "onlyStart c lst (sendStaffAlert c' s)"
    and "findOne (sendStaffAlert c' s) c = findOne s c"
    and "remindersFor c (sent (sendStaffAlert c' s)) = remindersFor c (sent s)"
  using assms
  by (simp_all add: sendStaffAlert_def onlyStart_def findOne_def remindersFor_def)

lemma fire_step:
  assumes "consistent t s" and "onlyStart c lst s" and "now < lst + START_DELAY"
    and "case find (\<lambda>p. hid p = h) (queue s) of None \<Rightarrow> True | Some p \<Rightarrow> due p \<le> now"
  shows "onlyStart c lst (fire h now s)"
    and "findOne (fire h now s) c = findOne s c"
    and "remindersFor c (sent (fire h now s)) = remindersFor c (sent s)"
proof -
  have all: "onlyStart c lst (fire h now s) \<and> findOne (fire h now s) c = findOne s c
             \<and> remindersFor c (sent (fire h now s)) = remindersFor c (sent s)"
  proof (cases "find (\<lambda>p. hid p = h) (queue s)")
    case None
    then show ?thesis using assms(2) by (simp add: fire_def)
  next
    case (Some p)
    then have p: "p \<in> set (queue s)" "hid p = h"
      by (auto simp: find_Some_iff)
    have due: "due p \<le> now" using assms(4) Some by simp
    have other: "chanOf (act p) \<noteq> c"
      using assms(2,3) p(1) due by (auto simp: onlyStart_def)
    have dist: "distinct (map hid (queue s))"
      using assms(1) by (simp add: consistent_def)
    have same: "x = p" if "x \<in> set (queue s)" "hid x = h" for x
      using that p dist by (simp add: distinct_map inj_on_def)
    let ?q = "case every p of
                None \<Rightarrow> filter (\<lambda>x. hid x \<noteq> h) (queue s)
              | Some d \<Rightarrow> map (\<lambda>x. if hid x = h then x\<lparr>due := now + d\<rparr> else x) (queue s)"
    have q: "chanOf (act x) \<noteq> c \<or> (act x = StartCb c \<and> due x = lst + START_DELAY)"
      if xq: "x \<in> set ?q" for x
    proof (cases "every p")
      case None
      then show ?thesis using xq assms(2) by (auto simp: onlyStart_def)
    next
      case (Some d)
      then obtain y where y: "y \<in> set (queue s)"
        "x = (if hid y = h then y\<lparr>due := now + d\<rparr> else y)"
        using xq by auto
      show ?thesis
      proof (cases "hid y = h")
        case True
        then have "y = p" using same y(1) by simp
        then show ?thesis using other y(2) True by simp
      next
        case False
        then show ?thesis using y assms(2) by (auto simp: onlyStart_def)
      qed
    qed
    have o: "onlyStart c lst (s\<lparr>queue := ?q\<rparr>)"
      unfolding onlyStart_def using q by simp
    have f: "findOne (s\<lparr>queue := ?q\<rparr>) c = findOne s c" and se: "sent (s\<lparr>queue := ?q\<rparr>) = sent s"
      by (simp_all add: findOne_def)
    show ?thesis
    proof (cases "act p")
      case (StartCb c')
      then have ne: "c' \<noteq> c" using other by (simp add: chanOf_def)
      show ?thesis
        using startCallback_other[OF o ne, of h now] f se Some StartCb
        by (simp add: fire_def runCallback_def)
    next
      case (ReminderCb c')
      then have ne: "c' \<noteq> c" using other by (simp add: chanOf_def)
      show ?thesis
        using sendReminder_other[OF o ne] f se Some ReminderCb
        by (simp add: fire_def runCallback_def)
    next
      case (StaffCb c')
      show ?thesis
        using sendStaffAlert_other[OF o, of c'] f se Some StaffCb
        by (simp add: fire_def runCallback_def)
    qed
  qed
  then show "onlyStart c lst (fire h now s)"
    and "findOne (fire h now s) c = findOne s c"
    and "remindersFor c (sent (fire h now s)) = remindersFor c (sent s)"
    by simp_all
qed

lemma debounce_run:
  assumes "consistent t s" and "tidy s" and "findOne s c = Some d"
    and "onlyStart c lst s" and "timely cfg t evs s" and "debounced cfg c lst evs"
  shows "findOne (exec cfg evs s) c = Some d
       \<and> remindersFor c (sent (exec cfg evs s)) = remindersFor c (sent s)"
  using assms
proof (induction evs arbitrary: t s lst)
  case Nil
  then show ?case by (simp add: exec_def)
next
  case (Cons e evs)
  obtain now ev where e: "e = (now, ev)" by (cases e)
  have lt: "now < lst + START_DELAY" using Cons.prems(6) e by simp
  have w: "whole (snd e)" using Cons.prems(6) e by (cases ev) simp_all
  note nxt = step_consistent[OF Cons.prems(1,5) w]
  have ty: "tidy (step cfg e s)" by (rule tidy_step[OF Cons.prems(2,1) w])
  show ?case
  proof (cases ev)
    case (MessageCreate m)
    then have m: "staffIn cfg c m" "debounced cfg c now evs"
      using Cons.prems(6) e by simp_all
    note st = staff_step[OF Cons.prems(1,2) m(1) Cons.prems(3), of now]
    have f: "findOne (step cfg e s) c = Some d"
      using st(2) Cons.prems(3) by (simp add: e MessageCreate findOne_def)
    have o: "onlyStart c now (step cfg e s)"
      using st(1) by (simp add: e MessageCreate)
    from Cons.IH[OF conjunct1[OF nxt] ty f o conjunct2[OF nxt]] m(2) e st(3) MessageCreate
    show ?thesis by (simp add: exec_def)
  next
    case (Fire h)
    then have db: "debounced cfg c lst evs"
      using Cons.prems(6) e by simp
    have due: "case find (\<lambda>p. hid p = h) (queue s) of None \<Rightarrow> True | Some p \<Rightarrow> due p \<le> now"
      using Cons.prems(5) e Fire by simp
    note fs = fire_step[OF Cons.prems(1,4) lt due]
    have f: "findOne (step cfg e s) c = Some d"
      using fs(2) Cons.prems(3) by (simp add: e Fire)
    have o: "onlyStart c lst (step cfg e s)"
      using fs(1) by (simp add: e Fire)
    from Cons.IH[OF conjunct1[OF nxt] ty f o conjunct2[OF nxt] db] e fs(3) Fire
    show ?thesis by (simp add: exec_def)
  next
    case (InteractionCreate i)
    then show ?thesis using Cons.prems(6) e by simp
  next
    case (ChannelDelete c')
    then show ?thesis using Cons.prems(6) e by simp
  next
    case (FireStart h)
    then show ?thesis using Cons.prems(6) e by simp
  next
    case (ResumeStart h)
    then show ?thesis using Cons.prems(6) e by simp
  qed
qed

text \<open>
  A tracked ticket in a run with no pending one-shot reminder of a recovery: a staff
  message arrives at \<open>t0\<close>, and then staff messages and timer firings (each callback
  run to completion) follow, each less than \<open>START_DELAY\<close> after the latest staff
  message. Then the document of the ticket is
  as it was before the first message, and no reminder was sent in the channel.
\<close>

lemma debounce_without_one_shot:
  assumes "consistent t s" and "tidy s" and "findOne s c = Some d" and "staffIn cfg c m"
    and "timely cfg t ((t0, MessageCreate m) # evs) s" and "debounced cfg c t0 evs"
  shows "findOne (exec cfg ((t0, MessageCreate m) # evs) s) c = Some d
       \<and> remindersFor c (sent (exec cfg ((t0, MessageCreate m) # evs) s)) = remindersFor c (sent s)"
proof -
  have w: "whole (snd (t0, MessageCreate m))" by simp
  note nxt = step_consistent[OF assms(1,5) w]
  have ty: "tidy (step cfg (t0, MessageCreate m) s)" by (rule tidy_step[OF assms(2,1) w])
  note st = staff_step[OF assms(1,2,4,3), of t0]
  have f: "findOne (step cfg (t0, MessageCreate m) s) c = Some d"
    using st(2) assms(3) by (simp add: findOne_def)
  have o: "onlyStart c t0 (step cfg (t0, MessageCreate m) s)"
    using st(1) by simp
  from debounce_run[OF conjunct1[OF nxt] ty f o conjunct2[OF nxt]] assms(6) st(3)
  show ?thesis by (simp add: exec_def)
qed

text \<open>A staff message on the idle ticket, followed by \<open>quickRun\<close>.\<close>

lemma debounce_example:
  "staffIn cfg0 ''c1'' staffMsg
   \<and> timely cfg0 0 ((1000, MessageCreate staffMsg) # quickRun) (boot idleDb)
   \<and> debounced cfg0 ''c1'' 1000 quickRun
   \<and> findOne (exec cfg0 ((1000, MessageCreate staffMsg) # quickRun) (boot idleDb)) ''c1''
       = Some \<lparr>creatorId = ''u1'', timerStartTime = None, reminderCount = 0\<rparr>
   \<and> remindersFor ''c1'' (sent (exec cfg0 ((1000, MessageCreate staffMsg) # quickRun) (boot idleDb)))
       = []"
proof -
  let ?d = "\<lparr>creatorId = ''u1'', timerStartTime = None, reminderCount = 0\<rparr>"
  have a: "tidy (boot idleDb)"
    by (rule boot_tidy) (simp add: idleDb_def docOK_def)
  have b: "findOne (boot idleDb) ''c1'' = Some ?d"
    by code_simp
  have c: "staffIn cfg0 ''c1'' staffMsg"
    by (simp add: staffIn_def staffMsg_def cfg0_def isStaff_def hasStaffRole_def)
  have d: "timely cfg0 0 ((1000, MessageCreate staffMsg) # quickRun) (boot idleDb)"
    by code_simp
  have e: "debounced cfg0 ''c1'' 1000 quickRun"
    by code_simp
  have f: "remindersFor ''c1'' (sent (boot idleDb)) = []"
    by (simp add: boot_def remindersFor_def)
  show ?thesis
    using c d e f debounce_without_one_shot[OF boot_consistent a b c d e] by simp
qed

end
